theory Spec2Isabelle
  imports Main
begin

section \<open>Strings\<close>

text \<open>
  A JavaScript string is a sequence of UTF-16 code units.  A code unit is modelled by
  its numeric value (a natural number below 65536); \<open>js\<close> turns a literal into the
  code units of its characters.
\<close>

type_synonym jsstring = "nat list"

definition js :: "string \<Rightarrow> jsstring" where
  "js s = map of_char s"

text \<open>\<open>/pat/.test(s)\<close> for a pattern without metacharacters: \<open>pat\<close> occurs in \<open>s\<close>.\<close>

definition starts_with :: "jsstring \<Rightarrow> jsstring \<Rightarrow> bool" where
  "starts_with pat s = (take (length pat) s = pat)"

fun regex_test :: "jsstring \<Rightarrow> jsstring \<Rightarrow> bool" where
  "regex_test pat [] = (pat = [])"
| "regex_test pat (c # cs) = (starts_with pat (c # cs) \<or> regex_test pat cs)"

text \<open>
  \<open>String.prototype.split\<close> with a string separator.  An empty separator splits the
  string into its code units (and the empty string into no piece at all); otherwise the
  pieces are what lies between the occurrences of the separator, found from the left.
\<close>

function split_from :: "jsstring \<Rightarrow> jsstring \<Rightarrow> jsstring \<Rightarrow> jsstring list" where
  "split_from sep cur [] = [cur]"
| "split_from sep cur (c # cs) =
     (if sep \<noteq> [] \<and> starts_with sep (c # cs)
      then cur # split_from sep [] (drop (length sep) (c # cs))
      else split_from sep (cur @ [c]) cs)"
  by pat_completeness auto
termination
  by (relation "measure (\<lambda>(sep, cur, s). length s)") auto

definition split :: "jsstring \<Rightarrow> jsstring \<Rightarrow> jsstring list" where
  "split s sep = (if sep = [] then map (\<lambda>c. [c]) s else split_from sep [] s)"

text \<open>\<open>Array.prototype.join\<close>.\<close>

fun join :: "jsstring list \<Rightarrow> jsstring \<Rightarrow> jsstring" where
  "join [] sep = []"
| "join [x] sep = x"
| "join (x # y # ys) sep = x @ sep @ join (y # ys) sep"

section \<open>Errors\<close>

text \<open>
  The exceptions of the source, named by the error kinds of the design:
  \<^item> \<open>InvalidArgument\<close>: the \<open>TypeError\<close>s about a node that is not of a permitted class
    and about an index that is not an integer;
  \<^item> \<open>InvalidIndex\<close>: \<open>RangeError("index should respect children array bounds")\<close>;
  \<^item> \<open>InvalidName\<close>: \<open>Error("name should not contain characters not allowed in XML names")\<close>;
  \<^item> \<open>InvalidCharacterData\<close>: the \<open>Error\<close>s of the payload setters;
  \<^item> \<open>DuplicateAttribute\<close>: \<open>Error("element already contains an XmlAttribute object with name ...")\<close>;
  \<^item> \<open>UnsupportedOperation\<close>: \<open>Error("XmlCdata nodes cannot have children")\<close> and
    \<open>Error("toString not implemented for XmlNode")\<close>.
\<close>

datatype error =
    InvalidArgument
  | InvalidIndex
  | InvalidName
  | InvalidCharacterData
  | DuplicateAttribute
  | UnsupportedOperation

section \<open>Validation\<close>

text \<open>
  Modelled from the spec: \<open>validate.ts\<close> is not among the sources.  \<open>validateChar s\<close>
  is true iff every code point of \<open>s\<close> lies in the legal XML \<open>Char\<close> ranges: tab, newline,
  carriage return, \<open>[#x20-#xD7FF]\<close>, \<open>[#xE000-#xFFFD]\<close> and \<open>[#x10000-#x10FFFF]\<close>.  In
  UTF-16 a code point of the last range is a high surrogate followed by a low surrogate;
  a surrogate that stands alone is a code point of the excluded range \<open>[#xD800-#xDFFF]\<close>.
\<close>

definition bmpChar :: "nat \<Rightarrow> bool" where
  "bmpChar c = (c = 0x9 \<or> c = 0xA \<or> c = 0xD \<or> (0x20 \<le> c \<and> c \<le> 0xD7FF)
                \<or> (0xE000 \<le> c \<and> c \<le> 0xFFFD))"

definition highSurrogate :: "nat \<Rightarrow> bool" where
  "highSurrogate c = (0xD800 \<le> c \<and> c \<le> 0xDBFF)"

definition lowSurrogate :: "nat \<Rightarrow> bool" where
  "lowSurrogate c = (0xDC00 \<le> c \<and> c \<le> 0xDFFF)"

fun validateChar :: "jsstring \<Rightarrow> bool" where
  "validateChar [] = True"
| "validateChar [c] = bmpChar c"
| "validateChar (c # d # cs) =
     (if bmpChar c then validateChar (d # cs)
      else highSurrogate c \<and> lowSurrogate d \<and> validateChar cs)"

text \<open>
  Modelled from the spec: \<open>validate.ts\<close> is not among the sources.  \<open>validateName s\<close>
  is true iff \<open>s\<close> matches the XML \<open>Name\<close> production: a letter, underscore or colon
  first, then name characters (letters, digits, \<open>.\<close>, \<open>-\<close>, \<open>_\<close>, \<open>:\<close>, combining
  characters and extenders).  The character classes are those of the \<open>NameStartChar\<close>
  and \<open>NameChar\<close> productions of XML 1.0; the code points from \<open>#x10000\<close> to \<open>#xEFFFF\<close>
  are the surrogate pairs whose high surrogate is at most \<open>#xDB7F\<close>.
\<close>

definition nameStartChar :: "nat \<Rightarrow> bool" where
  "nameStartChar c =
     (c = 0x3A \<or> (0x41 \<le> c \<and> c \<le> 0x5A) \<or> c = 0x5F \<or> (0x61 \<le> c \<and> c \<le> 0x7A)
      \<or> (0xC0 \<le> c \<and> c \<le> 0xD6) \<or> (0xD8 \<le> c \<and> c \<le> 0xF6) \<or> (0xF8 \<le> c \<and> c \<le> 0x2FF)
      \<or> (0x370 \<le> c \<and> c \<le> 0x37D) \<or> (0x37F \<le> c \<and> c \<le> 0x1FFF)
      \<or> (0x200C \<le> c \<and> c \<le> 0x200D) \<or> (0x2070 \<le> c \<and> c \<le> 0x218F)
      \<or> (0x2C00 \<le> c \<and> c \<le> 0x2FEF) \<or> (0x3001 \<le> c \<and> c \<le> 0xD7FF)
      \<or> (0xF900 \<le> c \<and> c \<le> 0xFDCF) \<or> (0xFDF0 \<le> c \<and> c \<le> 0xFFFD))"

definition nameChar :: "nat \<Rightarrow> bool" where
  "nameChar c =
     (nameStartChar c \<or> c = 0x2D \<or> c = 0x2E \<or> (0x30 \<le> c \<and> c \<le> 0x39) \<or> c = 0xB7
      \<or> (0x300 \<le> c \<and> c \<le> 0x36F) \<or> (0x203F \<le> c \<and> c \<le> 0x2040))"

definition namePair :: "nat \<Rightarrow> nat \<Rightarrow> bool" where
  "namePair c d = (0xD800 \<le> c \<and> c \<le> 0xDB7F \<and> lowSurrogate d)"

fun nameChars :: "jsstring \<Rightarrow> bool" where
  "nameChars [] = True"
| "nameChars [c] = nameChar c"
| "nameChars (c # d # cs) =
     (if nameChar c then nameChars (d # cs) else namePair c d \<and> nameChars cs)"

fun validateName :: "jsstring \<Rightarrow> bool" where
  "validateName [] = False"
| "validateName [c] = nameStartChar c"
| "validateName (c # d # cs) =
     (if nameStartChar c then nameChars (d # cs) else namePair c d \<and> nameChars cs)"

section \<open>Nodes and the store\<close>

text \<open>
  The classes of the hierarchy with their private fields.  \<open>XmlNode\<close> is the base
  class itself; \<open>instanceof C\<close> is the test for the constructor \<open>C\<close>, since no class of
  the hierarchy other than \<open>XmlNode\<close> has a subclass.
\<close>

datatype obj =
    XmlNode
  | XmlAttribute jsstring
  | XmlCdata jsstring
  | XmlCharRef jsstring bool
  | XmlComment jsstring
  | XmlDtdEntity jsstring
  | XmlElement jsstring
  | XmlEntityRef jsstring
  | XmlProcInst jsstring "jsstring option"
  | XmlText jsstring

type_synonym ref = nat

text \<open>The fields \<open>_parent\<close> and \<open>_children\<close> of \<open>XmlNode\<close>; \<open>undefined\<close> is \<open>None\<close>.\<close>

record node =
  obj :: obj
  parent :: "ref option"
  children :: "ref list"

text \<open>
  Objects live in a store and are named by references.  \<open>next_ref\<close> is the first
  reference that no \<open>new\<close> has handed out yet.
\<close>

record store =
  heap :: "ref \<Rightarrow> node"
  next_ref :: ref

definition empty_store :: store where
  "empty_store = \<lparr>heap = (\<lambda>_. \<lparr>obj = XmlNode, parent = None, children = []\<rparr>), next_ref = 0\<rparr>"

text \<open>\<open>super()\<close> in \<open>XmlNode\<close>: no parent, no children.\<close>

definition alloc :: "store \<Rightarrow> obj \<Rightarrow> ref \<times> store" where
  "alloc s ob =
     (next_ref s,
      s\<lparr>heap := (heap s)(next_ref s := \<lparr>obj = ob, parent = None, children = []\<rparr>),
        next_ref := Suc (next_ref s)\<rparr>)"

definition set_parent :: "store \<Rightarrow> ref \<Rightarrow> ref option \<Rightarrow> store" where
  "set_parent s r p = s\<lparr>heap := (heap s)(r := (heap s r)\<lparr>parent := p\<rparr>)\<rparr>"

definition set_children :: "store \<Rightarrow> ref \<Rightarrow> ref list \<Rightarrow> store" where
  "set_children s r cs = s\<lparr>heap := (heap s)(r := (heap s r)\<lparr>children := cs\<rparr>)\<rparr>"

definition set_obj :: "store \<Rightarrow> ref \<Rightarrow> obj \<Rightarrow> store" where
  "set_obj s r ob = s\<lparr>heap := (heap s)(r := (heap s r)\<lparr>obj := ob\<rparr>)\<rparr>"

text \<open>
  A method returns a value or throws, and leaves a store behind in both cases.
\<close>

type_synonym 'a result = "(error + 'a) \<times> store"

section \<open>XmlCdata\<close>

text \<open>The setter of \<open>data\<close>; the argument is a string by its type.\<close>

definition XmlCdata_set_data :: "store \<Rightarrow> ref \<Rightarrow> jsstring \<Rightarrow> unit result" where
  "XmlCdata_set_data s this data =
     (if \<not> validateChar data then (Inl InvalidCharacterData, s)
      else if regex_test (js '']]>'') data then (Inl InvalidCharacterData, s)
      else (Inr (), set_obj s this (XmlCdata data)))"

text \<open>
  \<open>new XmlCdata(data)\<close>: \<open>super()\<close>, then the setter.  When the setter throws, the new
  object is unreachable, and the store is left as it was.
\<close>

definition new_XmlCdata :: "store \<Rightarrow> jsstring \<Rightarrow> ref result" where
  "new_XmlCdata s data =
     (let (this, s1) = alloc s (XmlCdata []) in
      case XmlCdata_set_data s1 this data of
        (Inl e, _) \<Rightarrow> (Inl e, s)
      | (Inr _, s2) \<Rightarrow> (Inr this, s2))"

definition XmlCdata_get_data :: "store \<Rightarrow> ref \<Rightarrow> jsstring" where
  "XmlCdata_get_data s this = (case obj (heap s this) of XmlCdata d \<Rightarrow> d | _ \<Rightarrow> [])"

definition XmlCdata_toString :: "store \<Rightarrow> ref \<Rightarrow> 'o \<Rightarrow> jsstring" where
  "XmlCdata_toString s this options = js ''<![CDATA['' @ XmlCdata_get_data s this @ js '']]>''"

section \<open>XmlNode\<close>

text \<open>
  A \<open>number\<close> is an integer or fails \<open>isInteger\<close> (a fraction, \<open>NaN\<close>, an infinity).
  An optional parameter left out is \<open>None\<close>.  A reference always names an \<open>XmlNode\<close> and
  an index always is a \<open>number\<close>, by their types: the checks \<open>node instanceof XmlNode\<close>
  and \<open>isType(index, "Number")\<close> of the methods never fail.
\<close>

datatype jsnumber = Integer int | NonInteger

text \<open>\<open>Array.prototype.indexOf\<close>: the first index of the element, or \<open>-1\<close>.\<close>

fun indexOf :: "'a list \<Rightarrow> 'a \<Rightarrow> int" where
  "indexOf [] x = - 1"
| "indexOf (y # ys) x =
     (if y = x then 0 else (let i = indexOf ys x in if i = - 1 then - 1 else i + 1))"

text \<open>\<open>xs.splice(i, 0, x)\<close> and \<open>xs.splice(i, 1)\<close>, for \<open>i\<close> within the bounds checked before.\<close>

definition splice_insert :: "'a list \<Rightarrow> nat \<Rightarrow> 'a \<Rightarrow> 'a list" where
  "splice_insert xs i x = take i xs @ [x] @ drop i xs"

definition splice_delete :: "'a list \<Rightarrow> nat \<Rightarrow> 'a list" where
  "splice_delete xs i = take i xs @ drop (Suc i) xs"

text \<open>
  Modelled from the spec: the sources of \<open>XmlCharRef\<close>, \<open>XmlComment\<close>, \<open>XmlEntityRef\<close>,
  \<open>XmlProcInst\<close> and \<open>XmlAttribute\<close> are missing.  The leaf variants override
  \<open>children\<close>, \<open>insertChild\<close>, \<open>removeChild\<close> and \<open>removeChildAtIndex\<close> to throw, as
  \<open>XmlCdata\<close> does in the sources, \<open>XmlText\<close> in its declaration file and
  \<open>XmlDtdEntity\<close> in its tests; \<open>XmlAttribute\<close> keeps the child operations of the base
  class.
\<close>

fun childless :: "obj \<Rightarrow> bool" where
  "childless XmlNode = False"
| "childless (XmlElement _) = False"
| "childless (XmlAttribute _) = False"
| "childless _ = True"

definition XmlNode_removeChild :: "store \<Rightarrow> ref \<Rightarrow> ref \<Rightarrow> bool result" where
  "XmlNode_removeChild s this node =
     (let index = indexOf (children (heap s this)) node in
      if index \<noteq> - 1 then
        (let s1 = set_parent s node None;
             s2 = set_children s1 this (splice_delete (children (heap s1 this)) (nat index))
         in (Inr True, s2))
      else (Inr False, s))"

text \<open>The method \<open>removeChild\<close> as a call on an object finds it: by the class of \<open>this\<close>.\<close>

definition removeChild :: "store \<Rightarrow> ref \<Rightarrow> ref \<Rightarrow> bool result" where
  "removeChild s this node =
     (if childless (obj (heap s this)) then (Inl UnsupportedOperation, s)
      else XmlNode_removeChild s this node)"

text \<open>
  \<open>insertChild(node, index = this._children.length)\<close>: \<open>index0\<close> is the argument as the
  caller gave it, \<open>index\<close> the parameter with its default.  The old parent's
  \<open>removeChild\<close> is a call like any other: if it throws, \<open>insertChild\<close> throws.
\<close>

definition XmlNode_insertChild :: "store \<Rightarrow> ref \<Rightarrow> ref \<Rightarrow> jsnumber option \<Rightarrow> ref option result" where
  "XmlNode_insertChild s this node index0 =
     (let index = (case index0 of None \<Rightarrow> Integer (int (length (children (heap s this))))
                   | Some i \<Rightarrow> i) in
      case index of
        NonInteger \<Rightarrow> (Inl InvalidArgument, s)
      | Integer i \<Rightarrow>
          if i < 0 \<or> i > int (length (children (heap s this))) then (Inl InvalidIndex, s)
          else if indexOf (children (heap s this)) node = - 1 then
            (case (case parent (heap s node) of
                     Some p \<Rightarrow> removeChild s p node
                   | None \<Rightarrow> (Inr False, s)) of
               (Inl e, s1) \<Rightarrow> (Inl e, s1)
             | (Inr _, s1) \<Rightarrow>
                 (let s2 = set_parent s1 node (Some this);
                      s3 = set_children s2 this
                             (splice_insert (children (heap s2 this)) (nat i) node)
                  in (Inr (Some node), s3)))
          else (Inr None, s))"

definition XmlNode_removeChildAtIndex :: "store \<Rightarrow> ref \<Rightarrow> jsnumber \<Rightarrow> ref result" where
  "XmlNode_removeChildAtIndex s this index =
     (case index of
        NonInteger \<Rightarrow> (Inl InvalidArgument, s)
      | Integer i \<Rightarrow>
          if i < 0 \<or> i \<ge> int (length (children (heap s this))) then (Inl InvalidIndex, s)
          else
            (let node = children (heap s this) ! nat i;
                 s1 = set_parent s node None;
                 s2 = set_children s1 this (splice_delete (children (heap s1 this)) (nat i))
             in (Inr node, s2)))"

definition removeChildAtIndex :: "store \<Rightarrow> ref \<Rightarrow> jsnumber \<Rightarrow> ref result" where
  "removeChildAtIndex s this index =
     (if childless (obj (heap s this)) then (Inl UnsupportedOperation, s)
      else XmlNode_removeChildAtIndex s this index)"

definition XmlNode_remove :: "store \<Rightarrow> ref \<Rightarrow> ref option result" where
  "XmlNode_remove s this =
     (case parent (heap s this) of
        Some p \<Rightarrow>
          (case removeChild s p this of
             (Inl e, s1) \<Rightarrow> (Inl e, s1)
           | (Inr _, s1) \<Rightarrow> (Inr (Some p), s1))
      | None \<Rightarrow> (Inr None, s))"

section \<open>XmlElement\<close>

definition XmlElement_set_name :: "store \<Rightarrow> ref \<Rightarrow> jsstring \<Rightarrow> unit result" where
  "XmlElement_set_name s this name =
     (if \<not> validateName name then (Inl InvalidName, s)
      else (Inr (), set_obj s this (XmlElement name)))"

text \<open>\<open>new XmlElement(name)\<close>: \<open>super()\<close>, then the setter, as for \<open>XmlCdata\<close>.\<close>

definition new_XmlElement :: "store \<Rightarrow> jsstring \<Rightarrow> ref result" where
  "new_XmlElement s name =
     (let (this, s1) = alloc s (XmlElement []) in
      case XmlElement_set_name s1 this name of
        (Inl e, _) \<Rightarrow> (Inl e, s)
      | (Inr _, s2) \<Rightarrow> (Inr this, s2))"

definition XmlElement_name :: "store \<Rightarrow> ref \<Rightarrow> jsstring" where
  "XmlElement_name s this = (case obj (heap s this) of XmlElement n \<Rightarrow> n | _ \<Rightarrow> [])"

fun instanceof_XmlAttribute :: "obj \<Rightarrow> bool" where
  "instanceof_XmlAttribute (XmlAttribute _) = True"
| "instanceof_XmlAttribute _ = False"

definition XmlAttribute_name :: "store \<Rightarrow> ref \<Rightarrow> jsstring" where
  "XmlAttribute_name s this = (case obj (heap s this) of XmlAttribute n \<Rightarrow> n | _ \<Rightarrow> [])"

definition XmlElement_attributes :: "store \<Rightarrow> ref \<Rightarrow> ref list" where
  "XmlElement_attributes s this =
     filter (\<lambda>node. instanceof_XmlAttribute (obj (heap s node))) (children (heap s this))"

text \<open>The classes that \<open>XmlElement.insertChild\<close> lets in.\<close>

fun element_child :: "obj \<Rightarrow> bool" where
  "element_child (XmlAttribute _) = True"
| "element_child (XmlCdata _) = True"
| "element_child (XmlCharRef _ _) = True"
| "element_child (XmlComment _) = True"
| "element_child (XmlElement _) = True"
| "element_child (XmlEntityRef _) = True"
| "element_child (XmlProcInst _ _) = True"
| "element_child (XmlText _) = True"
| "element_child _ = False"

definition XmlElement_insertChild :: "store \<Rightarrow> ref \<Rightarrow> ref \<Rightarrow> jsnumber option \<Rightarrow> ref option result" where
  "XmlElement_insertChild s this node index =
     (if \<not> element_child (obj (heap s node)) then (Inl InvalidArgument, s)
      else if instanceof_XmlAttribute (obj (heap s node))
              \<and> list_ex (\<lambda>attribute. XmlAttribute_name s attribute = XmlAttribute_name s node)
                   (filter (\<lambda>n. instanceof_XmlAttribute (obj (heap s n))) (children (heap s this)))
      then (Inl DuplicateAttribute, s)
      else XmlNode_insertChild s this node index)"

section \<open>XmlText, XmlAttribute, XmlDtdEntity\<close>

text \<open>
  Modelled from the spec: the source of \<open>XmlText\<close> is missing (its declaration file
  gives the constructor and the setter of \<open>text\<close>).  A Text node wraps a single string,
  stored through a setter that fails with \<open>InvalidCharacterData\<close> unless the string is
  legal character data.
\<close>

definition new_XmlText :: "store \<Rightarrow> jsstring \<Rightarrow> ref result" where
  "new_XmlText s text =
     (if \<not> validateChar text then (Inl InvalidCharacterData, s)
      else (let (this, s1) = alloc s (XmlText text) in (Inr this, s1)))"

text \<open>
  Modelled from the spec: the source of \<open>XmlAttribute\<close> is missing.  An Attribute has
  a validated name and holds its value as children; it is a container restricted to
  Text, Character-Reference and Entity-Reference nodes, with the child operations of
  the base class otherwise.  Its constructor sets the name and then inserts the nodes
  of the value, one after the other, at the end.
\<close>

fun attribute_child :: "obj \<Rightarrow> bool" where
  "attribute_child (XmlCharRef _ _) = True"
| "attribute_child (XmlEntityRef _) = True"
| "attribute_child (XmlText _) = True"
| "attribute_child _ = False"

definition XmlAttribute_insertChild :: "store \<Rightarrow> ref \<Rightarrow> ref \<Rightarrow> jsnumber option \<Rightarrow> ref option result" where
  "XmlAttribute_insertChild s this node index =
     (if \<not> attribute_child (obj (heap s node)) then (Inl InvalidArgument, s)
      else XmlNode_insertChild s this node index)"

fun insert_value :: "store \<Rightarrow> ref \<Rightarrow> ref list \<Rightarrow> unit result" where
  "insert_value s this [] = (Inr (), s)"
| "insert_value s this (node # nodes) =
     (case XmlAttribute_insertChild s this node None of
        (Inl e, s1) \<Rightarrow> (Inl e, s1)
      | (Inr _, s1) \<Rightarrow> insert_value s1 this nodes)"

definition new_XmlAttribute :: "store \<Rightarrow> jsstring \<Rightarrow> ref list \<Rightarrow> ref result" where
  "new_XmlAttribute s name val =
     (if \<not> validateName name then (Inl InvalidName, s)
      else
        (let (this, s1) = alloc s (XmlAttribute name) in
         case insert_value s1 this val of
           (Inl e, s2) \<Rightarrow> (Inl e, s2)
         | (Inr _, s2) \<Rightarrow> (Inr this, s2)))"

text \<open>
  Modelled from the spec: the source of \<open>XmlDtdEntity\<close> is missing; its tests are
  there.  A DTD-Entity wraps a single string \<open>text\<close>, validated as character data (the
  tests set \<open>text\<close> to \<open>"123"\<close> and read it back, and expect an error for a string with
  the character \<open>0x0001\<close>), and renders as \<open><!ENTITY text>\<close>.
\<close>

definition XmlDtdEntity_set_text :: "store \<Rightarrow> ref \<Rightarrow> jsstring \<Rightarrow> unit result" where
  "XmlDtdEntity_set_text s this text =
     (if \<not> validateChar text then (Inl InvalidCharacterData, s)
      else (Inr (), set_obj s this (XmlDtdEntity text)))"

definition new_XmlDtdEntity :: "store \<Rightarrow> jsstring \<Rightarrow> ref result" where
  "new_XmlDtdEntity s text =
     (let (this, s1) = alloc s (XmlDtdEntity []) in
      case XmlDtdEntity_set_text s1 this text of
        (Inl e, _) \<Rightarrow> (Inl e, s)
      | (Inr _, s2) \<Rightarrow> (Inr this, s2))"


section \<open>The methods as calls find them\<close>

text \<open>
  \<open>this.insertChild(node, index)\<close> by the class of \<open>this\<close>: the method of the base class,
  the overrides of \<open>XmlElement\<close> and \<open>XmlAttribute\<close>, and the throwing overrides of the
  leaf classes.
\<close>

definition insertChild :: "store \<Rightarrow> ref \<Rightarrow> ref \<Rightarrow> jsnumber option \<Rightarrow> ref option result" where
  "insertChild s this node index =
     (case obj (heap s this) of
        XmlNode \<Rightarrow> XmlNode_insertChild s this node index
      | XmlElement _ \<Rightarrow> XmlElement_insertChild s this node index
      | XmlAttribute _ \<Rightarrow> XmlAttribute_insertChild s this node index
      | _ \<Rightarrow> (Inl UnsupportedOperation, s))"

section \<open>XmlElement.attribute\<close>

text \<open>
  The value of an attribute is a string, a node, or an array of strings and nodes.  The
  array is the caller's object: what it holds after the call is returned with the
  result.
\<close>

datatype item = IString jsstring | INode ref

datatype attr_value = VString jsstring | VNode ref | VArray "item list"

function attribute_loop :: "store \<Rightarrow> item list \<Rightarrow> nat \<Rightarrow> (error + unit) \<times> store \<times> item list" where
  "attribute_loop s arrayVal i =
     (if i < length arrayVal then
        (case arrayVal ! i of
           IString strVal \<Rightarrow>
             (case new_XmlText s strVal of
                (Inl e, s1) \<Rightarrow> (Inl e, s1, arrayVal)
              | (Inr t, s1) \<Rightarrow> attribute_loop s1 (arrayVal[i := INode t]) (i + 1))
         | INode _ \<Rightarrow> attribute_loop s arrayVal (i + 1))
      else (Inr (), s, arrayVal))"
  by pat_completeness auto
termination
  by (relation "measure (\<lambda>(s, arrayVal, i). length arrayVal - i)") auto

fun item_nodes :: "item list \<Rightarrow> ref list" where
  "item_nodes [] = []"
| "item_nodes (INode r # xs) = r # item_nodes xs"
| "item_nodes (IString _ # xs) = item_nodes xs"

text \<open>
  Lines 105 to 115 of the method: the value as the nodes handed to \<open>new XmlAttribute\<close>,
  and the caller's value after it.
\<close>

definition attribute_value :: "store \<Rightarrow> attr_value \<Rightarrow> (error + ref list) \<times> store \<times> attr_value" where
  "attribute_value s val =
     (case val of
        VString str \<Rightarrow>
          (case new_XmlText s str of
             (Inl e, s1) \<Rightarrow> (Inl e, s1, val)
           | (Inr t, s1) \<Rightarrow> (Inr [t], s1, val))
      | VNode n \<Rightarrow> (Inr [n], s, val)
      | VArray arrayVal \<Rightarrow>
          (case attribute_loop s arrayVal 0 of
             (Inl e, s1, arr) \<Rightarrow> (Inl e, s1, VArray arr)
           | (Inr _, s1, arr) \<Rightarrow> (Inr (item_nodes arr), s1, VArray arr)))"

definition XmlElement_attribute ::
    "store \<Rightarrow> ref \<Rightarrow> jsstring \<Rightarrow> attr_value \<Rightarrow> jsnumber option \<Rightarrow> ref result \<times> attr_value" where
  "XmlElement_attribute s this name val index =
     (case attribute_value s val of
        (Inl e, s1, val1) \<Rightarrow> ((Inl e, s1), val1)
      | (Inr nodes, s1, val1) \<Rightarrow>
          (case new_XmlAttribute s1 name nodes of
             (Inl e, s2) \<Rightarrow> ((Inl e, s2), val1)
           | (Inr attribute, s2) \<Rightarrow>
               (case XmlElement_insertChild s2 this attribute index of
                  (Inl e, s3) \<Rightarrow> ((Inl e, s3), val1)
                | (Inr _, s3) \<Rightarrow> ((Inr attribute, s3), val1))))"

section \<open>toString\<close>

text \<open>
  \<open>options.ts\<close> is not among the sources.  \<open>new StringOptions(options)\<close> is a
  parameter \<open>mk\<close> of the rendering, from the caller's options (of any type \<open>'o\<close>) to
  the resolved ones.
\<close>

record StringOptions =
  indent :: jsstring
  newline :: jsstring
  pretty :: bool

text \<open>
  A call of \<open>toString\<close> returns a string, throws, or does not come back within the
  depth of calls at hand: \<open>Some (Inr str)\<close>, \<open>Some (Inl e)\<close>, \<open>None\<close>.
\<close>

type_synonym rendering = "(error + jsstring) option"

fun same_line_class :: "obj \<Rightarrow> bool" where
  "same_line_class (XmlCharRef _ _) = True"
| "same_line_class (XmlEntityRef _) = True"
| "same_line_class (XmlText _) = True"
| "same_line_class _ = False"

fun allSameLineNodes :: "store \<Rightarrow> ref list \<Rightarrow> bool" where
  "allSameLineNodes s [] = True"
| "allSameLineNodes s (node # nodes) =
     (if \<not> same_line_class (obj (heap s node)) then False else allSameLineNodes s nodes)"

definition onSameLine :: "store \<Rightarrow> ref \<Rightarrow> ref option \<Rightarrow> bool" where
  "onSameLine s prev next =
     (same_line_class (obj (heap s prev))
      \<and> (case next of None \<Rightarrow> False | Some n \<Rightarrow> same_line_class (obj (heap s n))))"

definition indenter :: "StringOptions \<Rightarrow> jsstring \<Rightarrow> jsstring" where
  "indenter optionsObj line = indent optionsObj @ line"

text \<open>The loop over the attributes; \<open>rec\<close> is the call \<open>n.toString(options)\<close>.\<close>

fun attributes_loop :: "(ref \<Rightarrow> rendering) \<Rightarrow> ref list \<Rightarrow> jsstring \<Rightarrow> rendering" where
  "attributes_loop rec [] str = Some (Inr str)"
| "attributes_loop rec (attribute # attributes) str =
     (case rec attribute of
        None \<Rightarrow> None
      | Some (Inl e) \<Rightarrow> Some (Inl e)
      | Some (Inr t) \<Rightarrow> attributes_loop rec attributes (str @ js '' '' @ t))"

text \<open>The loop over the other children, from index \<open>i\<close> on.\<close>

function nodes_loop ::
    "(ref \<Rightarrow> rendering) \<Rightarrow> StringOptions \<Rightarrow> store \<Rightarrow> ref list \<Rightarrow> nat \<Rightarrow> jsstring \<Rightarrow> rendering" where
  "nodes_loop rec optionsObj s nodes i str =
     (if i < length nodes then
        (let next = nodes ! i in
         case rec next of
           None \<Rightarrow> None
         | Some (Inl e) \<Rightarrow> Some (Inl e)
         | Some (Inr nextStr) \<Rightarrow>
             (let prev = (if i > 0 then Some (nodes ! (i - 1)) else None) in
              if pretty optionsObj \<and> \<not> allSameLineNodes s nodes
                 \<and> \<not> (i > 0 \<and> onSameLine s next prev)
              then nodes_loop rec optionsObj s nodes (i + 1)
                     ((str @ newline optionsObj)
                      @ join (map (indenter optionsObj) (split nextStr (newline optionsObj)))
                          (newline optionsObj))
              else nodes_loop rec optionsObj s nodes (i + 1) (str @ nextStr)))
      else Some (Inr str))"
  by pat_completeness auto
termination
  by (relation "measure (\<lambda>(rec, optionsObj, s, nodes, i, str). length nodes - i)") auto

definition XmlElement_toString ::
    "(ref \<Rightarrow> rendering) \<Rightarrow> ('o \<Rightarrow> StringOptions) \<Rightarrow> store \<Rightarrow> ref \<Rightarrow> 'o \<Rightarrow> rendering" where
  "XmlElement_toString rec mk s this options =
     (let optionsObj = mk options;
          attributes = XmlElement_attributes s this;
          nodes = filter (\<lambda>node. indexOf attributes node = - 1) (children (heap s this));
          str = js ''<'' @ XmlElement_name s this
      in case attributes_loop rec attributes str of
           None \<Rightarrow> None
         | Some (Inl e) \<Rightarrow> Some (Inl e)
         | Some (Inr str1) \<Rightarrow>
             if length nodes > 0 then
               (case nodes_loop rec optionsObj s nodes 0 (str1 @ js ''>'') of
                  None \<Rightarrow> None
                | Some (Inl e) \<Rightarrow> Some (Inl e)
                | Some (Inr str2) \<Rightarrow>
                    (let str3 = (if pretty optionsObj \<and> \<not> allSameLineNodes s nodes
                                 then str2 @ newline optionsObj else str2)
                     in Some (Inr (str3 @ js ''</'' @ XmlElement_name s this @ js ''>''))))
             else Some (Inr (str1 @ js ''/>'')))"

text \<open>
  \<open>n.toString(options)\<close> by the class of \<open>n\<close>, with at most \<open>depth\<close> calls nested.
  \<open>XmlNode\<close> throws, \<open>XmlCdata\<close> and \<open>XmlElement\<close> are the methods above.  The sources of
  the other classes are missing: their \<open>toString\<close> is the parameter \<open>ext\<close>.
\<close>

fun toString ::
    "(store \<Rightarrow> ref \<Rightarrow> 'o \<Rightarrow> error + jsstring) \<Rightarrow> ('o \<Rightarrow> StringOptions) \<Rightarrow> nat
      \<Rightarrow> store \<Rightarrow> ref \<Rightarrow> 'o \<Rightarrow> rendering" where
  "toString ext mk 0 s this options = None"
| "toString ext mk (Suc depth) s this options =
     (case obj (heap s this) of
        XmlNode \<Rightarrow> Some (Inl UnsupportedOperation)
      | XmlCdata _ \<Rightarrow> Some (Inr (XmlCdata_toString s this options))
      | XmlElement _ \<Rightarrow>
          XmlElement_toString (\<lambda>n. toString ext mk depth s n options) mk s this options
      | _ \<Rightarrow> Some (ext s this options))"

section \<open>Well-formed stores\<close>

text \<open>
  The back-reference of a node and its place among the children of its parent agree,
  and no node occurs twice among the children of a node.
\<close>

definition consistent :: "store \<Rightarrow> bool" where
  "consistent s =
     ((\<forall>n p. parent (heap s n) = Some p \<longleftrightarrow> n \<in> set (children (heap s p)))
      \<and> (\<forall>p. distinct (children (heap s p))))"

text \<open>The references not handed out yet are those of blank objects.\<close>

definition unused_blank :: "store \<Rightarrow> bool" where
  "unused_blank s =
     (\<forall>r. next_ref s \<le> r \<longrightarrow> parent (heap s r) = None \<and> children (heap s r) = [])"

text \<open>
  The stores a program can build: every constructor allocates an object (and the one of
  \<open>XmlAttribute\<close> then inserts children); a setter replaces the fields of an object; the
  four operations on children work on objects that exist.
\<close>

inductive reachable :: "store \<Rightarrow> bool" where
  reachable_empty: "reachable empty_store"
| reachable_new: "reachable s \<Longrightarrow> reachable (snd (alloc s ob))"
| reachable_set: "reachable s \<Longrightarrow> r < next_ref s \<Longrightarrow> reachable (set_obj s r ob)"
| reachable_insertChild:
    "reachable s \<Longrightarrow> this < next_ref s \<Longrightarrow> node < next_ref s
      \<Longrightarrow> reachable (snd (insertChild s this node index))"
| reachable_removeChild:
    "reachable s \<Longrightarrow> this < next_ref s \<Longrightarrow> node < next_ref s
      \<Longrightarrow> reachable (snd (removeChild s this node))"
| reachable_removeChildAtIndex:
    "reachable s \<Longrightarrow> this < next_ref s \<Longrightarrow> reachable (snd (removeChildAtIndex s this i))"
| reachable_remove:
    "reachable s \<Longrightarrow> this < next_ref s \<Longrightarrow> reachable (snd (XmlNode_remove s this))"

text \<open>
  The line-break policy in the words of the design, on the content nodes paired with
  their renderings: a node continues the line when it and the node before it are both
  inline-compatible; otherwise it starts a new line, each of its lines indented.
\<close>

definition indent_lines :: "StringOptions \<Rightarrow> jsstring \<Rightarrow> jsstring" where
  "indent_lines optionsObj str =
     join (map (\<lambda>line. indent optionsObj @ line) (split str (newline optionsObj)))
       (newline optionsObj)"



section \<open>Lines\<close>

text \<open>
  The lines of a text, in words that do not depend on how the program finds them;
  \<open>nl\<close> is the line terminator.  \<open>occurs pat s\<close>: the text \<open>s\<close> has \<open>pat\<close> somewhere in
  it.  \<open>is_lines nl str ls\<close>: the text \<open>str\<close> is the lines \<open>ls\<close> with the terminator
  between every two of them (so a terminator in front of the text is one in front of
  every line), and a line ends at the first terminator met from where the line starts:
  no terminator begins within a line that is followed by one, and the last line holds
  none.  With an empty terminator there is nothing to look for, and \<open>split\<close> of
  JavaScript makes every code unit a line of its own.
\<close>

definition occurs :: "jsstring \<Rightarrow> jsstring \<Rightarrow> bool" where
  "occurs pat s = (\<exists>u v. s = u @ pat @ v)"

definition is_lines :: "jsstring \<Rightarrow> jsstring \<Rightarrow> jsstring list \<Rightarrow> bool" where
  "is_lines nl str ls =
     (if nl = [] then ls = map (\<lambda>c. [c]) str
      else ls \<noteq> [] \<and> nl @ str = concat (map (\<lambda>line. nl @ line) ls)
           \<and> (\<forall>line\<in>set (butlast ls). \<not> occurs nl (line @ butlast nl))
           \<and> \<not> occurs nl (last ls))"
section \<open>XmlEntityRef, XmlProcInst\<close>




section \<open>Variants\<close>

text \<open>The variant of a node is its class.\<close>

datatype variant =
    Node
  | Attribute
  | CDATA
  | CharacterReference
  | Comment
  | DTDEntity
  | Element
  | EntityReference
  | ProcessingInstruction
  | Text

fun variant_of :: "obj \<Rightarrow> variant" where
  "variant_of XmlNode = Node"
| "variant_of (XmlAttribute _) = Attribute"
| "variant_of (XmlCdata _) = CDATA"
| "variant_of (XmlCharRef _ _) = CharacterReference"
| "variant_of (XmlComment _) = Comment"
| "variant_of (XmlDtdEntity _) = DTDEntity"
| "variant_of (XmlElement _) = Element"
| "variant_of (XmlEntityRef _) = EntityReference"
| "variant_of (XmlProcInst _ _) = ProcessingInstruction"
| "variant_of (XmlText _) = Text"

text \<open>The nodes that a caller of \<open>attribute\<close> hands over in the value.\<close>

fun value_nodes :: "attr_value \<Rightarrow> ref list" where
  "value_nodes (VString _) = []"
| "value_nodes (VNode n) = [n]"
| "value_nodes (VArray arr) = item_nodes arr"

text \<open>
  The terms of the design for the children of an element: its attributes, its content
  nodes (the other children), and the inline-compatible nodes.
\<close>

definition attribute_nodes :: "store \<Rightarrow> ref \<Rightarrow> ref list" where
  "attribute_nodes s e =
     filter (\<lambda>n. variant_of (obj (heap s n)) = Attribute) (children (heap s e))"

definition content_nodes :: "store \<Rightarrow> ref \<Rightarrow> ref list" where
  "content_nodes s e =
     filter (\<lambda>n. variant_of (obj (heap s n)) \<noteq> Attribute) (children (heap s e))"

definition inline_compatible :: "store \<Rightarrow> ref \<Rightarrow> bool" where
  "inline_compatible s n =
     (variant_of (obj (heap s n)) = CharacterReference
      \<or> variant_of (obj (heap s n)) = EntityReference
      \<or> variant_of (obj (heap s n)) = Text)"

section \<open>Example stores\<close>

text \<open>An element \<open>e\<close> (reference 0).\<close>

definition one_element :: store where
  "one_element = snd (new_XmlElement empty_store (js ''e''))"

text \<open>
  \<open>e\<close> after \<open>e.attribute("a", "v")\<close>: the Text node of the value is 1, the Attribute
  is 2.
\<close>

definition elem_with_attr :: store where
  "elem_with_attr =
     snd (fst (XmlElement_attribute one_element 0 (js ''a'') (VString (js ''v'')) None))"

text \<open>Then \<open>t = new XmlText("t")\<close> (reference 3) and \<open>e.insertChild(t)\<close>.\<close>

definition elem_attr_text :: store where
  "elem_attr_text = snd (insertChild (snd (new_XmlText elem_with_attr (js ''t''))) 0 3 None)"

text \<open>\<open>e\<close> after \<open>e.insertChild(e)\<close>.\<close>

definition self_child :: store where
  "self_child = snd (insertChild one_element 0 0 None)"

text \<open>Three elements \<open>a\<close>, \<open>b\<close>, \<open>c\<close> (references 0, 1, 2), and \<open>c\<close> inserted into \<open>a\<close>.\<close>

definition three_elements :: store where
  "three_elements =
     snd (new_XmlElement (snd (new_XmlElement (snd (new_XmlElement empty_store (js ''a'')))
       (js ''b''))) (js ''c''))"

definition c_under_a :: store where
  "c_under_a = snd (insertChild three_elements 0 2 None)"

text \<open>
  \<open>e\<close> with its attribute, and a second Attribute of the same name \<open>a\<close> (reference 4,
  its value the Text node 3) that is not inserted anywhere.
\<close>

definition second_attr :: store where
  "second_attr =
     snd (new_XmlAttribute (snd (new_XmlText elem_with_attr (js ''t''))) (js ''a'') [3])"

text \<open>\<open>e\<close> and a DTD-Entity (reference 1).\<close>

definition with_dtd :: store where
  "with_dtd = snd (new_XmlDtdEntity one_element (js ''abc''))"

text \<open>
  \<open>e\<close> with its attribute and three content nodes: the Text nodes \<open>x\<close> and \<open>y\<close>
  (references 3 and 4) and the CDATA section \<open>z\<close> (reference 5).
\<close>

definition three_made :: store where
  "three_made =
     snd (new_XmlCdata (snd (new_XmlText (snd (new_XmlText elem_with_attr (js ''x'')))
       (js ''y''))) (js ''z''))"

definition mixed :: store where
  "mixed = snd (insertChild (snd (insertChild (snd (insertChild three_made 0 3 None))
     0 4 None)) 0 5 None)"

text \<open>
  For the examples, a stand-in for the \<open>toString\<close> of the classes whose source is
  missing: a Text node renders as its text, an Attribute as its name, \<open>="\<close>, the texts
  of its children and \<open>"\<close>.
\<close>

definition sample_ext :: "store \<Rightarrow> ref \<Rightarrow> StringOptions \<Rightarrow> error + jsstring" where
  "sample_ext s n options =
     (case obj (heap s n) of
        XmlText t \<Rightarrow> Inr t
      | XmlAttribute a \<Rightarrow>
          Inr (a @ [61, 34]
               @ concat (map (\<lambda>c. case obj (heap s c) of XmlText t \<Rightarrow> t | _ \<Rightarrow> [])
                   (children (heap s n)))
               @ [34])
      | _ \<Rightarrow> Inl UnsupportedOperation)"

definition pretty_options :: StringOptions where
  "pretty_options = \<lparr>indent = js ''  '', newline = [10], pretty = True\<rparr>"

definition plain_options :: StringOptions where
  "plain_options = \<lparr>indent = js ''  '', newline = [10], pretty = False\<rparr>"

text \<open>The renderings of the children of \<open>e\<close> in \<open>mixed\<close>, and the height of its nodes.\<close>

definition mixed_rendering :: "ref \<Rightarrow> jsstring" where
  "mixed_rendering c =
     (if c = 2 then js ''a='' @ [34] @ js ''v'' @ [34]
      else if c = 3 then js ''x'' else if c = 4 then js ''y'' else js ''<![CDATA[z]]>'')"

definition mixed_rank :: "ref \<Rightarrow> nat" where
  "mixed_rank n = (if n = 0 then 2 else if n = 2 then 1 else 0)"


text \<open>
  The elements \<open>a\<close>, \<open>b\<close>, \<open>c\<close> nested: \<open>b.insertChild(c)\<close>, then \<open>a.insertChild(b)\<close>.
\<close>

definition c_under_b :: store where
  "c_under_b = snd (insertChild three_elements 1 2 None)"

definition nested :: store where
  "nested = snd (insertChild c_under_b 0 1 None)"

text \<open>\<open>e\<close> with the CDATA section \<open>z\<close> (reference 1) as its only child.\<close>

definition cdata_made :: store where
  "cdata_made = snd (new_XmlCdata one_element (js ''z''))"

definition cdata_child :: store where
  "cdata_child = snd (insertChild cdata_made 0 1 None)"

text \<open>Pretty-printing with \<open>-\<close> as the indent and the empty string as the newline.\<close>

definition dash_options :: StringOptions where
  "dash_options = \<lparr>indent = js ''-'', newline = [], pretty = True\<rparr>"
section \<open>Lists, strings and the store\<close>

lemma starts_with_iff: "starts_with pat s \<longleftrightarrow> (\<exists>q. s = pat @ q)"
  unfolding starts_with_def
  by (metis append_eq_conv_conj append_take_drop_id)

lemma regex_test_iff: "regex_test pat s \<longleftrightarrow> (\<exists>p q. s = p @ pat @ q)"
proof (induction s)
  case Nil
  then show ?case by auto
next
  case (Cons c cs)
  show ?case
  proof
    assume "regex_test pat (c # cs)"
    then consider "starts_with pat (c # cs)" | "regex_test pat cs" by auto
    then show "\<exists>p q. c # cs = p @ pat @ q"
    proof cases
      case 1
      then obtain q where "c # cs = pat @ q" by (auto simp: starts_with_iff)
      then have "c # cs = [] @ pat @ q" by simp
      then show ?thesis by blast
    next
      case 2
      then obtain p q where "cs = p @ pat @ q" using Cons.IH by auto
      then have "c # cs = (c # p) @ pat @ q" by simp
      then show ?thesis by blast
    qed
  next
    assume "\<exists>p q. c # cs = p @ pat @ q"
    then obtain p q where pq: "c # cs = p @ pat @ q" by auto
    show "regex_test pat (c # cs)"
    proof (cases p)
      case Nil
      then have "starts_with pat (c # cs)" using pq by (auto simp: starts_with_iff)
      then show ?thesis by simp
    next
      case (Cons a p')
      then have "cs = p' @ pat @ q" using pq by simp
      then have "regex_test pat cs" using Cons.IH by blast
      then show ?thesis by simp
    qed
  qed
qed

lemma set_parent_simps [simp]:
  "parent (heap (set_parent s r p) n) = (if n = r then p else parent (heap s n))"
  "children (heap (set_parent s r p) n) = children (heap s n)"
  "obj (heap (set_parent s r p) n) = obj (heap s n)"
  "next_ref (set_parent s r p) = next_ref s"
  by (simp_all add: set_parent_def)

lemma set_children_simps [simp]:
  "parent (heap (set_children s r cs) n) = parent (heap s n)"
  "children (heap (set_children s r cs) n) = (if n = r then cs else children (heap s n))"
  "obj (heap (set_children s r cs) n) = obj (heap s n)"
  "next_ref (set_children s r cs) = next_ref s"
  by (simp_all add: set_children_def)

lemma set_obj_simps [simp]:
  "parent (heap (set_obj s r ob) n) = parent (heap s n)"
  "children (heap (set_obj s r ob) n) = children (heap s n)"
  "obj (heap (set_obj s r ob) n) = (if n = r then ob else obj (heap s n))"
  "next_ref (set_obj s r ob) = next_ref s"
  by (simp_all add: set_obj_def)

lemma alloc_simps [simp]:
  "fst (alloc s ob) = next_ref s"
  "parent (heap (snd (alloc s ob)) n) = (if n = next_ref s then None else parent (heap s n))"
  "children (heap (snd (alloc s ob)) n) = (if n = next_ref s then [] else children (heap s n))"
  "obj (heap (snd (alloc s ob)) n) = (if n = next_ref s then ob else obj (heap s n))"
  "next_ref (snd (alloc s ob)) = Suc (next_ref s)"
  by (simp_all add: alloc_def)

lemma indexOf_range: "- 1 \<le> indexOf xs x \<and> (indexOf xs x = - 1 \<longleftrightarrow> x \<notin> set xs)"
proof (induction xs)
  case Nil
  show ?case by simp
next
  case (Cons y ys)
  show ?case
  proof (cases "y = x")
    case True
    then show ?thesis by simp
  next
    case False
    show ?thesis
    proof (cases "indexOf ys x = - 1")
      case True
      then show ?thesis using False Cons.IH by simp
    next
      case ne: False
      then have "0 \<le> indexOf ys x" using Cons.IH by arith
      then have "indexOf ys x + 1 \<noteq> - 1" "- 1 \<le> indexOf ys x + 1" by arith+
      then show ?thesis using False ne Cons.IH by (simp add: Let_def)
    qed
  qed
qed

lemma indexOf_minus1: "indexOf xs x = - 1 \<longleftrightarrow> x \<notin> set xs"
  using indexOf_range [of xs x] by simp

lemma indexOf_nonneg: "indexOf xs x = - 1 \<or> 0 \<le> indexOf xs x"
  using indexOf_range [of xs x] by arith

lemma indexOf_nth:
  "x \<in> set xs \<Longrightarrow> nat (indexOf xs x) < length xs \<and> xs ! nat (indexOf xs x) = x"
proof (induction xs)
  case Nil
  then show ?case by simp
next
  case (Cons y ys)
  show ?case
  proof (cases "y = x")
    case True
    then show ?thesis by simp
  next
    case False
    then have in_ys: "x \<in> set ys" using Cons.prems by simp
    then have ne: "indexOf ys x \<noteq> - 1" by (simp add: indexOf_minus1)
    then have ge: "0 \<le> indexOf ys x" using indexOf_nonneg [of ys x] by simp
    have "nat (indexOf ys x + 1) = Suc (nat (indexOf ys x))" using ge by simp
    then show ?thesis using False ne Cons.IH [OF in_ys] by (simp add: Let_def)
  qed
qed

lemma splice_delete_set:
  assumes "distinct xs" "i < length xs"
  shows "set (splice_delete xs i) = set xs - {xs ! i}" and "distinct (splice_delete xs i)"
proof -
  have xs: "xs = take i xs @ xs ! i # drop (Suc i) xs"
    using assms(2) by (rule id_take_nth_drop)
  then have d: "distinct (take i xs @ xs ! i # drop (Suc i) xs)" using assms(1) by simp
  have "set xs = set (take i xs) \<union> {xs ! i} \<union> set (drop (Suc i) xs)"
    by (subst xs) (simp del: append_take_drop_id)
  moreover have "xs ! i \<notin> set (take i xs)" "xs ! i \<notin> set (drop (Suc i) xs)"
    using d by auto
  ultimately show "set (splice_delete xs i) = set xs - {xs ! i}"
    by (auto simp: splice_delete_def)
  show "distinct (splice_delete xs i)"
    using d by (auto simp: splice_delete_def)
qed

lemma splice_insert_set [simp]: "set (splice_insert xs i x) = insert x (set xs)"
proof -
  have "set (splice_insert xs i x) = insert x (set (take i xs @ drop i xs))"
    unfolding splice_insert_def set_append by auto
  then show ?thesis by simp
qed

lemma splice_insert_distinct:
  assumes "distinct xs" "x \<notin> set xs"
  shows "distinct (splice_insert xs i x)"
proof -
  have "distinct (take i xs @ drop i xs)" using assms(1) by simp
  then have "distinct (take i xs)" "distinct (drop i xs)"
      "set (take i xs) \<inter> set (drop i xs) = {}"
    unfolding distinct_append by blast+
  moreover have "x \<notin> set (take i xs)" "x \<notin> set (drop i xs)"
    using assms(2) in_set_takeD in_set_dropD by fastforce+
  ultimately show ?thesis
    unfolding splice_insert_def by simp
qed

section \<open>Parent and children agree\<close>

text \<open>Detaching the child at an index.\<close>

lemma detach_consistent:
  assumes c: "consistent s" and i: "i < length (children (heap s this))"
  shows "consistent (set_children (set_parent s (children (heap s this) ! i) None) this
           (splice_delete (children (heap s this)) i))"
proof -
  let ?cs = "children (heap s this)"
  let ?x = "?cs ! i"
  have d: "distinct ?cs" using c by (simp add: consistent_def)
  have pc: "\<And>n p. parent (heap s n) = Some p \<longleftrightarrow> n \<in> set (children (heap s p))"
    using c by (simp add: consistent_def)
  have x_in: "?x \<in> set ?cs" using i by simp
  then have px: "parent (heap s ?x) = Some this" using pc by simp
  have x_only: "\<And>p. ?x \<in> set (children (heap s p)) \<Longrightarrow> p = this"
    using pc px by (metis option.inject)
  let ?s' = "set_children (set_parent s ?x None) this (splice_delete ?cs i)"
  have ch: "\<And>p. set (children (heap ?s' p))
      = (if p = this then set ?cs - {?x} else set (children (heap s p)))"
    using splice_delete_set(1) [OF d i] by simp
  have pa: "\<And>n. parent (heap ?s' n) = (if n = ?x then None else parent (heap s n))"
    by simp
  have "parent (heap ?s' n) = Some p \<longleftrightarrow> n \<in> set (children (heap ?s' p))" for n p
  proof (cases "n = ?x")
    case True
    then show ?thesis unfolding ch pa using x_only by auto
  next
    case False
    then show ?thesis unfolding ch pa using pc [of n p] by auto
  qed
  moreover have "distinct (children (heap ?s' p))" for p
    using c splice_delete_set(2) [OF d i] by (simp add: consistent_def)
  ultimately show ?thesis
    unfolding consistent_def by blast
qed

lemma XmlNode_removeChild_consistent:
  assumes "consistent s"
  shows "consistent (snd (XmlNode_removeChild s this node))"
proof (cases "node \<in> set (children (heap s this))")
  case True
  then have ix: "nat (indexOf (children (heap s this)) node) < length (children (heap s this))"
       and nth: "children (heap s this) ! nat (indexOf (children (heap s this)) node) = node"
    using indexOf_nth [OF True] by simp_all
  have ne: "indexOf (children (heap s this)) node \<noteq> - 1" using True by (simp add: indexOf_minus1)
  show ?thesis
    using detach_consistent [OF assms ix] ne nth
    by (simp add: XmlNode_removeChild_def Let_def)
next
  case False
  then show ?thesis using assms by (simp add: XmlNode_removeChild_def indexOf_minus1)
qed

lemma removeChild_consistent:
  "consistent s \<Longrightarrow> consistent (snd (removeChild s this node))"
  by (simp add: removeChild_def XmlNode_removeChild_consistent)

lemma removeChildAtIndex_consistent:
  assumes "consistent s"
  shows "consistent (snd (removeChildAtIndex s this index))"
proof (cases index)
  case NonInteger
  then show ?thesis using assms by (simp add: removeChildAtIndex_def XmlNode_removeChildAtIndex_def)
next
  case (Integer i)
  show ?thesis
  proof (cases "i < 0 \<or> i \<ge> int (length (children (heap s this)))")
    case True
    then show ?thesis using assms Integer
      by (auto simp: removeChildAtIndex_def XmlNode_removeChildAtIndex_def)
  next
    case False
    then have "nat i < length (children (heap s this))" by auto
    from detach_consistent [OF assms this] False Integer assms show ?thesis
      by (auto simp: removeChildAtIndex_def XmlNode_removeChildAtIndex_def Let_def)
  qed
qed

lemma remove_consistent:
  assumes "consistent s"
  shows "consistent (snd (XmlNode_remove s this))"
proof (cases "parent (heap s this)")
  case None
  then show ?thesis using assms by (simp add: XmlNode_remove_def)
next
  case (Some p)
  obtain r s1 where rc: "removeChild s p this = (r, s1)" by (cases "removeChild s p this")
  then have "consistent s1" using removeChild_consistent [OF assms, of p this] by simp
  then show ?thesis using Some rc by (cases r) (simp_all add: XmlNode_remove_def)
qed

text \<open>Attaching a node that has no parent.\<close>

lemma attach_consistent:
  assumes c: "consistent s" and np: "parent (heap s node) = None"
  shows "consistent (set_children (set_parent s node (Some this)) this
           (splice_insert (children (heap s this)) i node))"
proof -
  let ?s' = "set_children (set_parent s node (Some this)) this
               (splice_insert (children (heap s this)) i node)"
  have pc: "\<And>n p. parent (heap s n) = Some p \<longleftrightarrow> n \<in> set (children (heap s p))"
    using c by (simp add: consistent_def)
  have nowhere: "\<And>p. node \<notin> set (children (heap s p))"
    using pc [of node] np by simp
  have ch: "\<And>p. set (children (heap ?s' p))
      = (if p = this then insert node (set (children (heap s this))) else set (children (heap s p)))"
    by simp
  have pa: "\<And>n. parent (heap ?s' n) = (if n = node then Some this else parent (heap s n))"
    by simp
  have "parent (heap ?s' n) = Some p \<longleftrightarrow> n \<in> set (children (heap ?s' p))" for n p
  proof (cases "n = node")
    case True
    then show ?thesis unfolding ch pa using nowhere by auto
  next
    case False
    then show ?thesis unfolding ch pa using pc [of n p] by auto
  qed
  moreover have "distinct (children (heap ?s' p))" for p
    using c nowhere [of this] by (simp add: consistent_def splice_insert_distinct)
  ultimately show ?thesis
    unfolding consistent_def by blast
qed

text \<open>What \<open>removeChild\<close> leaves of a node that was a child.\<close>

lemma XmlNode_removeChild_child:
  assumes c: "consistent s" and p: "parent (heap s node) = Some q"
  shows "parent (heap (snd (XmlNode_removeChild s q node)) node) = None"
    and "fst (XmlNode_removeChild s q node) = Inr True"
    and "\<And>x. x \<noteq> q \<Longrightarrow> children (heap (snd (XmlNode_removeChild s q node)) x) = children (heap s x)"
    and "set (children (heap (snd (XmlNode_removeChild s q node)) q)) = set (children (heap s q)) - {node}"
    and "\<And>x. x \<noteq> node \<Longrightarrow> parent (heap (snd (XmlNode_removeChild s q node)) x) = parent (heap s x)"
    and "\<And>x. obj (heap (snd (XmlNode_removeChild s q node)) x) = obj (heap s x)"
    and "next_ref (snd (XmlNode_removeChild s q node)) = next_ref s"
proof -
  have mem: "node \<in> set (children (heap s q))" using c p by (simp add: consistent_def)
  have d: "distinct (children (heap s q))" using c by (simp add: consistent_def)
  have ne: "indexOf (children (heap s q)) node \<noteq> - 1" using mem by (simp add: indexOf_minus1)
  have ix: "nat (indexOf (children (heap s q)) node) < length (children (heap s q))"
    and nth: "children (heap s q) ! nat (indexOf (children (heap s q)) node) = node"
    using indexOf_nth [OF mem] by simp_all
  show "parent (heap (snd (XmlNode_removeChild s q node)) node) = None"
    using ne by (simp add: XmlNode_removeChild_def Let_def)
  show "fst (XmlNode_removeChild s q node) = Inr True"
    using ne by (simp add: XmlNode_removeChild_def Let_def)
  show "\<And>x. x \<noteq> q \<Longrightarrow> children (heap (snd (XmlNode_removeChild s q node)) x) = children (heap s x)"
    using ne by (simp add: XmlNode_removeChild_def Let_def)
  show "set (children (heap (snd (XmlNode_removeChild s q node)) q)) = set (children (heap s q)) - {node}"
    using ne splice_delete_set(1) [OF d ix] nth by (simp add: XmlNode_removeChild_def Let_def)
  show "\<And>x. x \<noteq> node \<Longrightarrow> parent (heap (snd (XmlNode_removeChild s q node)) x) = parent (heap s x)"
    using ne by (simp add: XmlNode_removeChild_def Let_def)
  show "\<And>x. obj (heap (snd (XmlNode_removeChild s q node)) x) = obj (heap s x)"
    by (simp add: XmlNode_removeChild_def Let_def)
  show "next_ref (snd (XmlNode_removeChild s q node)) = next_ref s"
    by (simp add: XmlNode_removeChild_def Let_def)
qed

lemma XmlNode_insertChild_consistent:
  assumes c: "consistent s"
  shows "consistent (snd (XmlNode_insertChild s this node index))"
proof -
  define ix where "ix = (case index of None \<Rightarrow> Integer (int (length (children (heap s this)))) | Some i \<Rightarrow> i)"
  show ?thesis
  proof (cases ix)
    case NonInteger
    then show ?thesis using c by (simp add: XmlNode_insertChild_def ix_def [symmetric])
  next
    case (Integer i)
    show ?thesis
    proof (cases "i < 0 \<or> i > int (length (children (heap s this)))
                  \<or> indexOf (children (heap s this)) node \<noteq> - 1")
      case True
      then show ?thesis using c Integer
        by (auto simp: XmlNode_insertChild_def ix_def [symmetric])
    next
      case False
      then have absent: "indexOf (children (heap s this)) node = - 1"
        and ok: "\<not> i < 0" "\<not> i > int (length (children (heap s this)))" by auto
      show ?thesis
      proof (cases "parent (heap s node)")
        case None
        from attach_consistent [OF c None] show ?thesis
          using Integer absent ok None
          by (simp add: XmlNode_insertChild_def ix_def [symmetric] Let_def)
      next
        case (Some q)
        show ?thesis
        proof (cases "childless (obj (heap s q))")
          case True
          then show ?thesis using c Integer absent ok Some
            by (simp add: XmlNode_insertChild_def ix_def [symmetric] removeChild_def)
        next
          case notleaf: False
          obtain r s1 where rc: "XmlNode_removeChild s q node = (r, s1)"
            by (cases "XmlNode_removeChild s q node")
          have r: "r = Inr True" using XmlNode_removeChild_child(2) [OF c Some] rc by simp
          have c1: "consistent s1" using XmlNode_removeChild_consistent [OF c, of q node] rc by simp
          have p1: "parent (heap s1 node) = None"
            using XmlNode_removeChild_child(1) [OF c Some] rc by simp
          from attach_consistent [OF c1 p1] show ?thesis
            using Integer absent ok Some notleaf rc r
            by (simp add: XmlNode_insertChild_def ix_def [symmetric] Let_def removeChild_def)
        qed
      qed
    qed
  qed
qed

lemma insertChild_consistent:
  "consistent s \<Longrightarrow> consistent (snd (insertChild s this node index))"
  by (cases "obj (heap s this)")
     (simp_all add: insertChild_def XmlElement_insertChild_def XmlAttribute_insertChild_def
       XmlNode_insertChild_consistent)

lemma distinct_count_list: "distinct xs \<Longrightarrow> x \<in> set xs \<Longrightarrow> count_list xs x = 1"
  by (induction xs) auto

lemma splice_insert_count:
  "count_list (splice_insert xs i x) x = Suc (count_list xs x)"
proof -
  have "count_list (take i xs @ drop i xs) x = count_list xs x" by simp
  then show ?thesis unfolding splice_insert_def count_list_append by simp
qed

lemma XmlNode_removeChild_next_ref [simp]:
  "next_ref (snd (XmlNode_removeChild s this node)) = next_ref s"
  by (simp add: XmlNode_removeChild_def Let_def)

lemma XmlNode_removeChild_blank:
  assumes "unused_blank s"
  shows "unused_blank (snd (XmlNode_removeChild s this node))"
proof (cases "indexOf (children (heap s this)) node = - 1")
  case True
  then show ?thesis using assms by (simp add: XmlNode_removeChild_def)
next
  case False
  then have "children (heap s this) \<noteq> []" by auto
  then have "this < next_ref s" using assms unfolding unused_blank_def by (meson not_le)
  then show ?thesis using assms False
    by (auto simp: XmlNode_removeChild_def Let_def unused_blank_def)
qed

lemma removeChild_blank:
  "unused_blank s \<Longrightarrow> unused_blank (snd (removeChild s this node))"
  by (simp add: removeChild_def XmlNode_removeChild_blank)

lemma removeChild_next_ref [simp]: "next_ref (snd (removeChild s this node)) = next_ref s"
  by (simp add: removeChild_def)

lemma removeChildAtIndex_blank:
  assumes "unused_blank s"
  shows "unused_blank (snd (removeChildAtIndex s this index))"
proof (cases index)
  case NonInteger
  then show ?thesis using assms by (simp add: removeChildAtIndex_def XmlNode_removeChildAtIndex_def)
next
  case (Integer i)
  show ?thesis
  proof (cases "i < 0 \<or> i \<ge> int (length (children (heap s this)))")
    case True
    then show ?thesis using assms Integer
      by (auto simp: removeChildAtIndex_def XmlNode_removeChildAtIndex_def)
  next
    case False
    then have "children (heap s this) \<noteq> []" by auto
    then have "this < next_ref s" using assms unfolding unused_blank_def by (meson not_le)
    then show ?thesis using assms False Integer
      by (auto simp: removeChildAtIndex_def XmlNode_removeChildAtIndex_def Let_def unused_blank_def)
  qed
qed

lemma removeChildAtIndex_next_ref [simp]:
  "next_ref (snd (removeChildAtIndex s this index)) = next_ref s"
  by (cases index)
     (simp_all add: removeChildAtIndex_def XmlNode_removeChildAtIndex_def Let_def)

lemma remove_blank:
  assumes "unused_blank s"
  shows "unused_blank (snd (XmlNode_remove s this))"
proof (cases "parent (heap s this)")
  case None
  then show ?thesis using assms by (simp add: XmlNode_remove_def)
next
  case (Some p)
  obtain r s1 where rc: "removeChild s p this = (r, s1)" by (cases "removeChild s p this")
  then have "unused_blank s1" using removeChild_blank [OF assms, of p this] by simp
  then show ?thesis using Some rc by (cases r) (simp_all add: XmlNode_remove_def)
qed

lemma remove_next_ref [simp]: "next_ref (snd (XmlNode_remove s this)) = next_ref s"
proof (cases "parent (heap s this)")
  case None
  then show ?thesis by (simp add: XmlNode_remove_def)
next
  case (Some p)
  obtain r s1 where rc: "removeChild s p this = (r, s1)" by (cases "removeChild s p this")
  then have "next_ref s1 = next_ref s" using removeChild_next_ref [of s p this] by simp
  then show ?thesis using Some rc by (cases r) (simp_all add: XmlNode_remove_def)
qed

lemma XmlNode_insertChild_blank:
  assumes b: "unused_blank s" and t: "this < next_ref s" and n: "node < next_ref s"
  shows "unused_blank (snd (XmlNode_insertChild s this node index))
         \<and> next_ref (snd (XmlNode_insertChild s this node index)) = next_ref s"
proof -
  define ix where "ix = (case index of None \<Rightarrow> Integer (int (length (children (heap s this)))) | Some i \<Rightarrow> i)"
  obtain r s1 where rc: "(case parent (heap s node) of Some p \<Rightarrow> removeChild s p node
                          | None \<Rightarrow> (Inr False, s)) = (r, s1)"
    by (cases "case parent (heap s node) of Some p \<Rightarrow> removeChild s p node
                          | None \<Rightarrow> (Inr False, s)")
  have b1: "unused_blank s1 \<and> next_ref s1 = next_ref s"
  proof (cases "parent (heap s node)")
    case None
    then show ?thesis using rc b by simp
  next
    case (Some p)
    then show ?thesis using rc removeChild_blank [OF b, of p node] removeChild_next_ref [of s p node]
      by simp
  qed
  show ?thesis
  proof (cases ix)
    case NonInteger
    then show ?thesis using b by (simp add: XmlNode_insertChild_def ix_def [symmetric])
  next
    case (Integer i)
    show ?thesis
    proof (cases "i < 0 \<or> i > int (length (children (heap s this)))
                  \<or> indexOf (children (heap s this)) node \<noteq> - 1")
      case True
      then show ?thesis using b Integer
        by (auto simp: XmlNode_insertChild_def ix_def [symmetric])
    next
      case False
      show ?thesis
      proof (cases r)
        case (Inl e)
        then show ?thesis using False Integer rc b1
          by (simp add: XmlNode_insertChild_def ix_def [symmetric])
      next
        case (Inr v)
        then show ?thesis using False Integer rc b1 t n
          by (auto simp: XmlNode_insertChild_def ix_def [symmetric] Let_def unused_blank_def)
      qed
    qed
  qed
qed

lemma insertChild_blank:
  "unused_blank s \<Longrightarrow> this < next_ref s \<Longrightarrow> node < next_ref s
    \<Longrightarrow> unused_blank (snd (insertChild s this node index))
        \<and> next_ref (snd (insertChild s this node index)) = next_ref s"
  by (cases "obj (heap s this)")
     (simp_all add: insertChild_def XmlElement_insertChild_def XmlAttribute_insertChild_def
       XmlNode_insertChild_blank)

lemma alloc_consistent:
  assumes c: "consistent s" and b: "unused_blank s"
  shows "consistent (snd (alloc s ob))"
proof -
  have pc: "\<And>n p. parent (heap s n) = Some p \<longleftrightarrow> n \<in> set (children (heap s p))"
    using c by (simp add: consistent_def)
  have blank: "parent (heap s (next_ref s)) = None" "children (heap s (next_ref s)) = []"
    using b by (simp_all add: unused_blank_def)
  have nowhere: "\<And>p. next_ref s \<notin> set (children (heap s p))"
    using pc [of "next_ref s"] blank by simp
  have noparent: "\<And>n. parent (heap s n) \<noteq> Some (next_ref s)"
    using pc [of _ "next_ref s"] blank by simp
  have "parent (heap (snd (alloc s ob)) n) = Some p
          \<longleftrightarrow> n \<in> set (children (heap (snd (alloc s ob)) p))" for n p
    using pc [of n p] nowhere [of p] noparent [of n] by auto
  moreover have "distinct (children (heap (snd (alloc s ob)) p))" for p
    using c by (simp add: consistent_def)
  ultimately show ?thesis unfolding consistent_def by blast
qed

lemma alloc_blank: "unused_blank s \<Longrightarrow> unused_blank (snd (alloc s ob))"
  by (simp add: unused_blank_def)

lemma set_obj_consistent: "consistent s \<Longrightarrow> consistent (set_obj s r ob)"
  by (simp add: consistent_def)

lemma set_obj_blank: "unused_blank s \<Longrightarrow> unused_blank (set_obj s r ob)"
  by (simp add: unused_blank_def)

lemma empty_store_wf: "consistent empty_store" "unused_blank empty_store"
  by (simp_all add: consistent_def unused_blank_def empty_store_def)

lemma reachable_wf: "reachable s \<Longrightarrow> consistent s \<and> unused_blank s"
proof (induction rule: reachable.induct)
  case reachable_empty
  show ?case by (simp add: empty_store_wf)
next
  case (reachable_new s ob)
  then show ?case by (simp add: alloc_consistent alloc_blank)
next
  case (reachable_set s r ob)
  then show ?case by (simp add: set_obj_consistent set_obj_blank)
next
  case (reachable_insertChild s this node index)
  then show ?case by (simp add: insertChild_consistent insertChild_blank)
next
  case (reachable_removeChild s this node)
  then show ?case by (simp add: removeChild_consistent removeChild_blank)
next
  case (reachable_removeChildAtIndex s this i)
  then show ?case by (simp add: removeChildAtIndex_consistent removeChildAtIndex_blank)
next
  case (reachable_remove s this)
  then show ?case by (simp add: remove_consistent remove_blank)
qed

lemma insertChild_success:
  "fst (insertChild s this node index) = Inr r
    \<Longrightarrow> insertChild s this node index = XmlNode_insertChild s this node index"
  by (cases "obj (heap s this)")
     (auto simp: insertChild_def XmlElement_insertChild_def XmlAttribute_insertChild_def
       split: if_splits)

lemma XmlNode_insertChild_move:
  assumes c: "consistent s" and p: "parent (heap s node) = Some q" and qt: "q \<noteq> this"
    and ok: "fst (XmlNode_insertChild s this node index) = Inr r"
  shows "r = Some node"
    and "count_list (children (heap s q)) node = 1"
    and "set (children (heap (snd (XmlNode_insertChild s this node index)) q))
           = set (children (heap s q)) - {node}"
    and "count_list (children (heap s this)) node = 0"
    and "count_list (children (heap (snd (XmlNode_insertChild s this node index)) this)) node = 1"
    and "parent (heap (snd (XmlNode_insertChild s this node index)) node) = Some this"
proof -
  define ix where "ix = (case index of None \<Rightarrow> Integer (int (length (children (heap s this)))) | Some i \<Rightarrow> i)"
  have pc: "\<And>n p. parent (heap s n) = Some p \<longleftrightarrow> n \<in> set (children (heap s p))"
    using c by (simp add: consistent_def)
  have mem: "node \<in> set (children (heap s q))" using pc p by simp
  have d: "distinct (children (heap s q))" using c by (simp add: consistent_def)
  show one: "count_list (children (heap s q)) node = 1"
    using distinct_count_list [OF d mem] .
  have notin: "node \<notin> set (children (heap s this))"
    using pc [of node this] p qt by simp
  then show "count_list (children (heap s this)) node = 0" by simp
  have absent: "indexOf (children (heap s this)) node = - 1"
    using notin by (simp add: indexOf_minus1)
  obtain i where ixi: "ix = Integer i"
    using ok by (cases ix) (simp_all add: XmlNode_insertChild_def ix_def [symmetric])
  have range: "\<not> (i < 0 \<or> i > int (length (children (heap s this))))"
    using ok ixi by (auto simp: XmlNode_insertChild_def ix_def [symmetric])
  have notleaf: "\<not> childless (obj (heap s q))"
    using ok ixi range absent p
    by (auto simp: XmlNode_insertChild_def ix_def [symmetric] removeChild_def)
  define s1 where "s1 = snd (XmlNode_removeChild s q node)"
  have rc: "XmlNode_removeChild s q node = (Inr True, s1)"
    using XmlNode_removeChild_child(2) [OF c p] unfolding s1_def
    by (metis prod.collapse)
  have res: "XmlNode_insertChild s this node index
      = (Inr (Some node), set_children (set_parent s1 node (Some this)) this
           (splice_insert (children (heap s1 this)) (nat i) node))"
    using ixi range absent p notleaf rc
    by (simp add: XmlNode_insertChild_def ix_def [symmetric] removeChild_def Let_def)
  show "r = Some node" using ok res by simp
  have ch_this: "children (heap s1 this) = children (heap s this)"
    using XmlNode_removeChild_child(3) [OF c p, of this] qt unfolding s1_def by simp
  have ch_q: "set (children (heap s1 q)) = set (children (heap s q)) - {node}"
    using XmlNode_removeChild_child(4) [OF c p] unfolding s1_def by simp
  show "set (children (heap (snd (XmlNode_insertChild s this node index)) q))
           = set (children (heap s q)) - {node}"
    using res ch_q qt by simp
  show "count_list (children (heap (snd (XmlNode_insertChild s this node index)) this)) node = 1"
    using res ch_this notin by (simp add: splice_insert_count)
  show "parent (heap (snd (XmlNode_insertChild s this node index)) node) = Some this"
    using res by simp
qed

section \<open>What the operations leave alone\<close>

lemma splice_delete_remove1:
  "x \<in> set xs \<Longrightarrow> splice_delete xs (nat (indexOf xs x)) = remove1 x xs"
proof (induction xs)
  case Nil
  then show ?case by simp
next
  case (Cons y ys)
  show ?case
  proof (cases "y = x")
    case True
    then show ?thesis by (simp add: splice_delete_def)
  next
    case False
    then have in_ys: "x \<in> set ys" using Cons.prems by simp
    then have ne: "indexOf ys x \<noteq> - 1" by (simp add: indexOf_minus1)
    then have ge: "0 \<le> indexOf ys x" using indexOf_nonneg [of ys x] by simp
    have "nat (indexOf ys x + 1) = Suc (nat (indexOf ys x))" using ge by simp
    then show ?thesis using False ne Cons.IH [OF in_ys]
      by (simp add: Let_def splice_delete_def)
  qed
qed

text \<open>What \<open>removeChild\<close> and \<open>insertChild\<close> leave alone.\<close>

lemma XmlNode_removeChild_frame:
  "obj (heap (snd (XmlNode_removeChild s this node)) x) = obj (heap s x)"
  "x \<noteq> this \<Longrightarrow> children (heap (snd (XmlNode_removeChild s this node)) x) = children (heap s x)"
  "children (heap (snd (XmlNode_removeChild s this node)) this) = remove1 node (children (heap s this))"
proof -
  show "obj (heap (snd (XmlNode_removeChild s this node)) x) = obj (heap s x)"
    by (simp add: XmlNode_removeChild_def Let_def)
  show "x \<noteq> this \<Longrightarrow> children (heap (snd (XmlNode_removeChild s this node)) x) = children (heap s x)"
    by (simp add: XmlNode_removeChild_def Let_def)
  show "children (heap (snd (XmlNode_removeChild s this node)) this) = remove1 node (children (heap s this))"
  proof (cases "node \<in> set (children (heap s this))")
    case True
    then show ?thesis
      by (simp add: XmlNode_removeChild_def Let_def indexOf_minus1 splice_delete_remove1)
  next
    case False
    then show ?thesis
      by (simp add: XmlNode_removeChild_def Let_def indexOf_minus1 remove1_idem)
  qed
qed

lemma removeChild_frame:
  "obj (heap (snd (removeChild s p node)) x) = obj (heap s x)"
  "children (heap (snd (removeChild s p node)) x) = children (heap s x)
   \<or> children (heap (snd (removeChild s p node)) x) = remove1 node (children (heap s x))"
proof -
  show "obj (heap (snd (removeChild s p node)) x) = obj (heap s x)"
    by (simp add: removeChild_def XmlNode_removeChild_frame)
  show "children (heap (snd (removeChild s p node)) x) = children (heap s x)
   \<or> children (heap (snd (removeChild s p node)) x) = remove1 node (children (heap s x))"
    by (cases "x = p") (simp_all add: removeChild_def XmlNode_removeChild_frame)
qed

lemma XmlNode_insertChild_frame:
  "obj (heap (snd (XmlNode_insertChild s this node index)) x) = obj (heap s x)"
  "next_ref (snd (XmlNode_insertChild s this node index)) = next_ref s"
  "x \<noteq> this \<Longrightarrow>
     children (heap (snd (XmlNode_insertChild s this node index)) x) = children (heap s x)
     \<or> children (heap (snd (XmlNode_insertChild s this node index)) x)
         = remove1 node (children (heap s x))"
proof -
  define ix where "ix = (case index of None \<Rightarrow> Integer (int (length (children (heap s this)))) | Some i \<Rightarrow> i)"
  define rm where "rm = (case parent (heap s node) of Some p \<Rightarrow> removeChild s p node
                          | None \<Rightarrow> (Inr False, s))"
  have rm_obj: "\<And>y. obj (heap (snd rm) y) = obj (heap s y)"
    unfolding rm_def by (cases "parent (heap s node)") (simp_all add: removeChild_frame)
  have rm_next: "next_ref (snd rm) = next_ref s"
    unfolding rm_def by (cases "parent (heap s node)") simp_all
  have rm_ch: "\<And>y. children (heap (snd rm) y) = children (heap s y)
       \<or> children (heap (snd rm) y) = remove1 node (children (heap s y))"
    unfolding rm_def using removeChild_frame(2) by (cases "parent (heap s node)") simp_all
  have result: "snd (XmlNode_insertChild s this node index) = s
      \<or> snd (XmlNode_insertChild s this node index) = snd rm
      \<or> (\<exists>i. snd (XmlNode_insertChild s this node index)
           = set_children (set_parent (snd rm) node (Some this)) this
               (splice_insert (children (heap (snd rm) this)) i node))"
    unfolding XmlNode_insertChild_def ix_def [symmetric] rm_def [symmetric]
    by (cases ix; cases rm; cases "fst rm") (auto simp: Let_def)
  show "obj (heap (snd (XmlNode_insertChild s this node index)) x) = obj (heap s x)"
    using result rm_obj by auto
  show "next_ref (snd (XmlNode_insertChild s this node index)) = next_ref s"
    using result rm_next by auto
  show "x \<noteq> this \<Longrightarrow>
     children (heap (snd (XmlNode_insertChild s this node index)) x) = children (heap s x)
     \<or> children (heap (snd (XmlNode_insertChild s this node index)) x)
         = remove1 node (children (heap s x))"
    using result rm_ch [of x] by auto
qed

lemma keeps_attributes:
  assumes "children (heap s' x) = children (heap s x)
           \<or> children (heap s' x) = remove1 node (children (heap s x))"
    and "\<not> P node"
  shows "filter P (children (heap s' x)) = filter P (children (heap s x))"
proof -
  have "filter P (remove1 node (children (heap s x))) = filter P (children (heap s x))"
    using assms(2) by (simp add: filter_remove1 remove1_idem)
  then show ?thesis using assms(1) by auto
qed

lemma attribute_child_not_attribute: "attribute_child ob \<Longrightarrow> \<not> instanceof_XmlAttribute ob"
  by (cases ob) simp_all

lemma XmlAttribute_insertChild_frame:
  "obj (heap (snd (XmlAttribute_insertChild s this node index)) x) = obj (heap s x)"
  "next_ref (snd (XmlAttribute_insertChild s this node index)) = next_ref s"
  "x \<noteq> this \<Longrightarrow>
     filter (\<lambda>n. instanceof_XmlAttribute (obj (heap s n)))
         (children (heap (snd (XmlAttribute_insertChild s this node index)) x))
       = filter (\<lambda>n. instanceof_XmlAttribute (obj (heap s n))) (children (heap s x))"
  "x \<noteq> this \<Longrightarrow> node \<notin> set (children (heap s x)) \<Longrightarrow>
     children (heap (snd (XmlAttribute_insertChild s this node index)) x) = children (heap s x)"
proof -
  show "obj (heap (snd (XmlAttribute_insertChild s this node index)) x) = obj (heap s x)"
    by (simp add: XmlAttribute_insertChild_def XmlNode_insertChild_frame)
  show "next_ref (snd (XmlAttribute_insertChild s this node index)) = next_ref s"
    by (simp add: XmlAttribute_insertChild_def XmlNode_insertChild_frame)
  show "filter (\<lambda>n. instanceof_XmlAttribute (obj (heap s n)))
         (children (heap (snd (XmlAttribute_insertChild s this node index)) x))
       = filter (\<lambda>n. instanceof_XmlAttribute (obj (heap s n))) (children (heap s x))"
    if "x \<noteq> this"
  proof (cases "attribute_child (obj (heap s node))")
    case True
    then have "\<not> instanceof_XmlAttribute (obj (heap s node))"
      by (rule attribute_child_not_attribute)
    from keeps_attributes [OF XmlNode_insertChild_frame(3) [OF that], of "\<lambda>n. instanceof_XmlAttribute (obj (heap s n))", OF this]
    show ?thesis using True by (simp add: XmlAttribute_insertChild_def)
  next
    case False
    then show ?thesis by (simp add: XmlAttribute_insertChild_def)
  qed
  show "children (heap (snd (XmlAttribute_insertChild s this node index)) x) = children (heap s x)"
    if "x \<noteq> this" "node \<notin> set (children (heap s x))"
    using XmlNode_insertChild_frame(3) [OF that(1), of s node index] that(2)
    by (auto simp: XmlAttribute_insertChild_def remove1_idem)
qed

lemma insert_value_frame:
  "(\<forall>y. obj (heap (snd (insert_value s this nodes)) y) = obj (heap s y))
   \<and> next_ref (snd (insert_value s this nodes)) = next_ref s
   \<and> (x \<noteq> this \<longrightarrow>
        filter (\<lambda>n. instanceof_XmlAttribute (obj (heap s n)))
            (children (heap (snd (insert_value s this nodes)) x))
          = filter (\<lambda>n. instanceof_XmlAttribute (obj (heap s n))) (children (heap s x)))
   \<and> (x \<noteq> this \<and> set nodes \<inter> set (children (heap s x)) = {} \<longrightarrow>
        children (heap (snd (insert_value s this nodes)) x) = children (heap s x))"
proof (induction nodes arbitrary: s)
  case Nil
  show ?case by simp
next
  case (Cons node nodes)
  obtain r s1 where step: "XmlAttribute_insertChild s this node None = (r, s1)"
    by (cases "XmlAttribute_insertChild s this node None")
  have o1: "\<And>y. obj (heap s1 y) = obj (heap s y)"
    using XmlAttribute_insertChild_frame(1) [of s this node None] step by simp
  have n1: "next_ref s1 = next_ref s"
    using XmlAttribute_insertChild_frame(2) [of s this node None] step by simp
  have f1: "x \<noteq> this \<Longrightarrow> filter (\<lambda>n. instanceof_XmlAttribute (obj (heap s n))) (children (heap s1 x))
       = filter (\<lambda>n. instanceof_XmlAttribute (obj (heap s n))) (children (heap s x))"
    using XmlAttribute_insertChild_frame(3) [of x this s node None] step by simp
  have c1: "x \<noteq> this \<Longrightarrow> node \<notin> set (children (heap s x)) \<Longrightarrow> children (heap s1 x) = children (heap s x)"
    using XmlAttribute_insertChild_frame(4) [of x this node s None] step by simp
  show ?case
  proof (cases r)
    case (Inl e)
    then show ?thesis using step o1 n1 f1 c1 by auto
  next
    case (Inr v)
    have eq: "insert_value s this (node # nodes) = insert_value s1 this nodes"
      using step Inr by simp
    note ih = Cons.IH [of s1]
    show ?thesis unfolding eq using ih o1 n1 f1 c1 by auto
  qed
qed

lemma new_XmlText_valid:
  "validateChar str \<Longrightarrow> new_XmlText s str = (Inr (next_ref s), snd (alloc s (XmlText str)))"
  by (simp add: new_XmlText_def alloc_def)

lemma new_XmlText_invalid:
  "\<not> validateChar str \<Longrightarrow> new_XmlText s str = (Inl InvalidCharacterData, s)"
  by (simp add: new_XmlText_def)

text \<open>The loop over a valid array, from index \<open>i\<close> on.\<close>

lemma attribute_loop_valid:
  assumes "\<forall>j. i \<le> j \<and> j < length arr \<longrightarrow> (\<forall>str. arr ! j = IString str \<longrightarrow> validateChar str)"
  shows "\<exists>s' arr'. attribute_loop s arr i = (Inr (), s', arr')
     \<and> length arr' = length arr
     \<and> (\<forall>j<i. arr' ! j = arr ! j)
     \<and> (\<forall>j. i \<le> j \<and> j < length arr \<longrightarrow>
          (case arr ! j of
             IString str \<Rightarrow> (\<exists>t. arr' ! j = INode t \<and> next_ref s \<le> t \<and> t < next_ref s'
                                \<and> obj (heap s' t) = XmlText str)
           | INode n \<Rightarrow> arr' ! j = INode n))
     \<and> next_ref s \<le> next_ref s'
     \<and> (\<forall>r<next_ref s. heap s' r = heap s r)"
  using assms
proof (induction s arr i rule: attribute_loop.induct)
  case (1 s arrayVal i)
  show ?case
  proof (cases "i < length arrayVal")
    case False
    then show ?thesis by (auto simp: attribute_loop.simps [of s arrayVal i])
  next
    case True
    show ?thesis
    proof (cases "arrayVal ! i")
      case (INode n)
      have pre: "\<forall>j. i + 1 \<le> j \<and> j < length arrayVal \<longrightarrow>
                  (\<forall>str. arrayVal ! j = IString str \<longrightarrow> validateChar str)"
      proof (intro allI impI)
        fix j str assume a: "i + 1 \<le> j \<and> j < length arrayVal" "arrayVal ! j = IString str"
        then have "i \<le> j \<and> j < length arrayVal" by simp
        then show "validateChar str" using "1.prems" a(2) by blast
      qed
      from "1.IH"(2) [OF True INode pre]
      obtain s' arr' where r: "attribute_loop s arrayVal (i + 1) = (Inr (), s', arr')"
        and len: "length arr' = length arrayVal"
        and before: "\<forall>j<i + 1. arr' ! j = arrayVal ! j"
        and after: "\<forall>j. i + 1 \<le> j \<and> j < length arrayVal \<longrightarrow>
          (case arrayVal ! j of
             IString str \<Rightarrow> (\<exists>t. arr' ! j = INode t \<and> next_ref s \<le> t \<and> t < next_ref s'
                                \<and> obj (heap s' t) = XmlText str)
           | INode n \<Rightarrow> arr' ! j = INode n)"
        and nx: "next_ref s \<le> next_ref s'"
        and fr: "\<forall>r<next_ref s. heap s' r = heap s r"
        by blast
      have eq: "attribute_loop s arrayVal i = (Inr (), s', arr')"
        using True INode r by (simp add: attribute_loop.simps [of s arrayVal i])
      have at_i: "arr' ! i = INode n" using before INode by simp
      have "\<forall>j. i \<le> j \<and> j < length arrayVal \<longrightarrow>
          (case arrayVal ! j of
             IString str \<Rightarrow> (\<exists>t. arr' ! j = INode t \<and> next_ref s \<le> t \<and> t < next_ref s'
                                \<and> obj (heap s' t) = XmlText str)
           | INode n \<Rightarrow> arr' ! j = INode n)"
      proof (intro allI impI)
        fix j assume j: "i \<le> j \<and> j < length arrayVal"
        show "case arrayVal ! j of
             IString str \<Rightarrow> (\<exists>t. arr' ! j = INode t \<and> next_ref s \<le> t \<and> t < next_ref s'
                                \<and> obj (heap s' t) = XmlText str)
           | INode n \<Rightarrow> arr' ! j = INode n"
        proof (cases "j = i")
          case True
          then show ?thesis using INode at_i by simp
        next
          case False
          then have "i + 1 \<le> j \<and> j < length arrayVal" using j by simp
          then show ?thesis using after by blast
        qed
      qed
      then show ?thesis using eq len before nx fr by auto
    next
      case (IString strVal)
      have valid: "validateChar strVal" using "1.prems" True IString by auto
      define t where "t = next_ref s"
      define s1 where "s1 = snd (alloc s (XmlText strVal))"
      have mk: "new_XmlText s strVal = (Inr t, s1)"
        unfolding t_def s1_def using valid by (rule new_XmlText_valid)
      have len1: "length (arrayVal[i := INode t]) = length arrayVal" by simp
      have pre: "\<forall>j. i + 1 \<le> j \<and> j < length (arrayVal[i := INode t]) \<longrightarrow>
                  (\<forall>str. arrayVal[i := INode t] ! j = IString str \<longrightarrow> validateChar str)"
      proof (intro allI impI)
        fix j str
        assume a: "i + 1 \<le> j \<and> j < length (arrayVal[i := INode t])"
          "arrayVal[i := INode t] ! j = IString str"
        then have "i \<le> j \<and> j < length arrayVal" "arrayVal ! j = IString str" by simp_all
        then show "validateChar str" using "1.prems" by blast
      qed
      have mk': "(Inr t, s1) = new_XmlText s strVal" using mk by simp
      from "1.IH"(1) [OF True IString mk' refl pre]
      obtain s' arr' where r: "attribute_loop s1 (arrayVal[i := INode t]) (i + 1) = (Inr (), s', arr')"
        and len: "length arr' = length (arrayVal[i := INode t])"
        and before: "\<forall>j<i + 1. arr' ! j = arrayVal[i := INode t] ! j"
        and after: "\<forall>j. i + 1 \<le> j \<and> j < length (arrayVal[i := INode t]) \<longrightarrow>
          (case arrayVal[i := INode t] ! j of
             IString str \<Rightarrow> (\<exists>t. arr' ! j = INode t \<and> next_ref s1 \<le> t \<and> t < next_ref s'
                                \<and> obj (heap s' t) = XmlText str)
           | INode n \<Rightarrow> arr' ! j = INode n)"
        and nx: "next_ref s1 \<le> next_ref s'"
        and fr: "\<forall>r<next_ref s1. heap s' r = heap s1 r"
        by blast
      have nx1: "next_ref s1 = Suc (next_ref s)" unfolding s1_def by simp
      have eq: "attribute_loop s arrayVal i = (Inr (), s', arr')"
        using True IString mk r by (simp add: attribute_loop.simps [of s arrayVal i])
      have at_i: "arr' ! i = INode t" using before True by simp
      have t_obj: "obj (heap s' t) = XmlText strVal"
        using fr nx1 unfolding t_def s1_def by simp
      have t_lt: "t < next_ref s'" using nx nx1 unfolding t_def by simp
      have old: "\<forall>r<next_ref s. heap s' r = heap s r"
      proof (intro allI impI)
        fix r assume "r < next_ref s"
        then have "heap s' r = heap s1 r" "heap s1 r = heap s r"
          using fr nx1 unfolding s1_def by (simp_all add: alloc_def)
        then show "heap s' r = heap s r" by simp
      qed
      have "\<forall>j. i \<le> j \<and> j < length arrayVal \<longrightarrow>
          (case arrayVal ! j of
             IString str \<Rightarrow> (\<exists>t. arr' ! j = INode t \<and> next_ref s \<le> t \<and> t < next_ref s'
                                \<and> obj (heap s' t) = XmlText str)
           | INode n \<Rightarrow> arr' ! j = INode n)"
      proof (intro allI impI)
        fix j assume j: "i \<le> j \<and> j < length arrayVal"
        show "case arrayVal ! j of
             IString str \<Rightarrow> (\<exists>t. arr' ! j = INode t \<and> next_ref s \<le> t \<and> t < next_ref s'
                                \<and> obj (heap s' t) = XmlText str)
           | INode n \<Rightarrow> arr' ! j = INode n"
        proof (cases "j = i")
          case True
          then show ?thesis using IString at_i t_obj t_lt unfolding t_def by simp
        next
          case False
          then have j1: "i + 1 \<le> j \<and> j < length (arrayVal[i := INode t])" using j by simp
          have same: "arrayVal[i := INode t] ! j = arrayVal ! j" using False by simp
          from after j1 have "case arrayVal ! j of
             IString str \<Rightarrow> (\<exists>t. arr' ! j = INode t \<and> next_ref s1 \<le> t \<and> t < next_ref s'
                                \<and> obj (heap s' t) = XmlText str)
           | INode n \<Rightarrow> arr' ! j = INode n"
            unfolding same [symmetric] by blast
          then show ?thesis using nx1 by (cases "arrayVal ! j") auto
        qed
      qed
      moreover have "\<forall>j<i. arr' ! j = arrayVal ! j" using before by simp
      moreover have "next_ref s \<le> next_ref s'" using nx nx1 by simp
      ultimately show ?thesis using eq len old by auto
    qed
  qed
qed

lemma item_nodes_update: "set (item_nodes (arr[i := INode t])) \<subseteq> insert t (set (item_nodes arr))"
proof (induction arr arbitrary: i)
  case Nil
  show ?case by simp
next
  case (Cons x xs)
  show ?case
  proof (cases i)
    case 0
    then show ?thesis by (cases x) auto
  next
    case (Suc k)
    then show ?thesis using Cons.IH [of k] by (cases x) auto
  qed
qed

lemma attribute_loop_frame:
  "attribute_loop s arr i = (r, s', arr')
    \<Longrightarrow> next_ref s \<le> next_ref s' \<and> (\<forall>x<next_ref s. heap s' x = heap s x)
        \<and> set (item_nodes arr') \<subseteq> set (item_nodes arr) \<union> {t. next_ref s \<le> t}"
proof (induction s arr i arbitrary: r s' arr' rule: attribute_loop.induct)
  case (1 s arrayVal i)
  show ?case
  proof (cases "i < length arrayVal")
    case False
    then show ?thesis using "1.prems" by (simp add: attribute_loop.simps [of s arrayVal i])
  next
    case True
    show ?thesis
    proof (cases "arrayVal ! i")
      case (INode n)
      then have "attribute_loop s arrayVal (i + 1) = (r, s', arr')"
        using "1.prems" True by (simp add: attribute_loop.simps [of s arrayVal i])
      from "1.IH"(2) [OF True INode this] show ?thesis .
    next
      case (IString strVal)
      show ?thesis
      proof (cases "validateChar strVal")
        case False
        then show ?thesis using "1.prems" True IString
          by (simp add: attribute_loop.simps [of s arrayVal i] new_XmlText_invalid)
      next
        case valid: True
        define t where "t = next_ref s"
        define s1 where "s1 = snd (alloc s (XmlText strVal))"
        have mk: "(Inr t, s1) = new_XmlText s strVal"
          unfolding t_def s1_def using valid by (simp add: new_XmlText_valid)
        have "attribute_loop s1 (arrayVal[i := INode t]) (i + 1) = (r, s', arr')"
          using "1.prems" True IString mk [symmetric]
          by (simp add: attribute_loop.simps [of s arrayVal i])
        from "1.IH"(1) [OF True IString mk refl this]
        have nx: "next_ref s1 \<le> next_ref s'"
          and fr: "\<forall>x<next_ref s1. heap s' x = heap s1 x"
          and sub: "set (item_nodes arr') \<subseteq> set (item_nodes (arrayVal[i := INode t])) \<union> {t. next_ref s1 \<le> t}"
          by simp_all
        have nx1: "next_ref s1 = Suc (next_ref s)" unfolding s1_def by simp
        have old: "\<forall>x<next_ref s. heap s' x = heap s x"
        proof (intro allI impI)
          fix x assume "x < next_ref s"
          then have "heap s' x = heap s1 x" "heap s1 x = heap s x"
            using fr nx1 unfolding s1_def by (simp_all add: alloc_def)
          then show "heap s' x = heap s x" by simp
        qed
        have "set (item_nodes arr') \<subseteq> set (item_nodes arrayVal) \<union> {t. next_ref s \<le> t}"
          using sub item_nodes_update [of arrayVal i t] nx1 unfolding t_def by auto
        then show ?thesis using nx nx1 old by simp
      qed
    qed
  qed
qed

text \<open>The nodes that the caller hands over in the value.\<close>

lemma attribute_value_frame:
  assumes "attribute_value s val = (r, s1, v1)"
  shows "next_ref s \<le> next_ref s1" and "\<forall>x<next_ref s. heap s1 x = heap s x"
    and "\<forall>nodes. r = Inr nodes \<longrightarrow> set nodes \<subseteq> set (value_nodes val) \<union> {t. next_ref s \<le> t}"
proof -
  have "next_ref s \<le> next_ref s1 \<and> (\<forall>x<next_ref s. heap s1 x = heap s x)
     \<and> (\<forall>nodes. r = Inr nodes \<longrightarrow> set nodes \<subseteq> set (value_nodes val) \<union> {t. next_ref s \<le> t})"
  proof (cases val)
    case (VString str)
    then show ?thesis using assms
      by (cases "validateChar str")
         (auto simp: attribute_value_def new_XmlText_def alloc_def)
  next
    case (VNode n)
    then show ?thesis using assms by (auto simp: attribute_value_def)
  next
    case (VArray arr)
    obtain r0 s0 a0 where l: "attribute_loop s arr 0 = (r0, s0, a0)"
      by (cases "attribute_loop s arr 0") auto
    from attribute_loop_frame [OF l] l assms VArray show ?thesis
      by (cases r0) (auto simp: attribute_value_def)
  qed
  then show "next_ref s \<le> next_ref s1" and "\<forall>x<next_ref s. heap s1 x = heap s x"
    and "\<forall>nodes. r = Inr nodes \<longrightarrow> set nodes \<subseteq> set (value_nodes val) \<union> {t. next_ref s \<le> t}"
    by blast+
qed

lemma XmlElement_insertChild_frame:
  "obj (heap (snd (XmlElement_insertChild s this node index)) x) = obj (heap s x)"
  by (simp add: XmlElement_insertChild_def XmlNode_insertChild_frame)

lemma new_XmlAttribute_unfold:
  "validateName name \<Longrightarrow> new_XmlAttribute s name val =
     (case insert_value (snd (alloc s (XmlAttribute name))) (next_ref s) val of
        (Inl e, s2) \<Rightarrow> (Inl e, s2)
      | (Inr _, s2) \<Rightarrow> (Inr (next_ref s), s2))"
  by (simp add: new_XmlAttribute_def alloc_def)

lemma new_XmlAttribute_frame:
  "x < next_ref s \<Longrightarrow> obj (heap (snd (new_XmlAttribute s name val)) x) = obj (heap s x)"
  "fst (new_XmlAttribute s name val) = Inr a \<Longrightarrow> a = next_ref s"
  "fst (new_XmlAttribute s name val) = Inr a
    \<Longrightarrow> obj (heap (snd (new_XmlAttribute s name val)) a) = XmlAttribute name"
proof -
  define s1 where "s1 = snd (alloc s (XmlAttribute name))"
  obtain r s2 where iv: "insert_value s1 (next_ref s) val = (r, s2)"
    by (cases "insert_value s1 (next_ref s) val")
  have o: "\<And>y. obj (heap s2 y) = obj (heap s1 y)"
    using insert_value_frame [of s1 "next_ref s" val] iv by simp
  have res: "validateName name \<Longrightarrow> new_XmlAttribute s name val
      = (case r of Inl e \<Rightarrow> Inl e | Inr _ \<Rightarrow> Inr (next_ref s), s2)"
    using iv unfolding s1_def by (cases r) (simp_all add: new_XmlAttribute_unfold)
  have bad: "\<not> validateName name \<Longrightarrow> new_XmlAttribute s name val = (Inl InvalidName, s)"
    by (simp add: new_XmlAttribute_def)
  show "x < next_ref s \<Longrightarrow> obj (heap (snd (new_XmlAttribute s name val)) x) = obj (heap s x)"
    using res bad o unfolding s1_def by (cases "validateName name") simp_all
  show "fst (new_XmlAttribute s name val) = Inr a \<Longrightarrow> a = next_ref s"
    using res bad by (cases "validateName name"; cases r) simp_all
  show "fst (new_XmlAttribute s name val) = Inr a
    \<Longrightarrow> obj (heap (snd (new_XmlAttribute s name val)) a) = XmlAttribute name"
    using res bad o unfolding s1_def by (cases "validateName name"; cases r) simp_all
qed

lemma reachable_children_allocated:
  assumes "reachable s" "n \<in> set (children (heap s p))"
  shows "n < next_ref s"
proof -
  have c: "consistent s" and b: "unused_blank s" using reachable_wf [OF assms(1)] by simp_all
  have "parent (heap s n) = Some p" using c assms(2) by (simp add: consistent_def)
  then show ?thesis using b unfolding unused_blank_def by (metis not_le option.discI)
qed

section \<open>The example stores\<close>

lemmas store_eval =
  new_XmlElement_def XmlElement_set_name_def new_XmlText_def new_XmlAttribute_def
  XmlAttribute_insertChild_def XmlNode_insertChild_def XmlElement_insertChild_def insertChild_def
  XmlElement_attribute_def attribute_value_def removeChild_def XmlNode_removeChild_def Let_def
  alloc_def set_obj_def set_parent_def set_children_def splice_insert_def splice_delete_def
  XmlAttribute_name_def

lemma example_names:
  "validateName (js ''a'')" "validateName (js ''b'')" "validateName (js ''c'')"
  "validateName (js ''e'')" "validateChar (js ''v'')" "validateChar (js ''t'')"
  by (simp_all add: js_def nameStartChar_def bmpChar_def)

lemma one_element_shape:
  "heap one_element 0 = \<lparr>obj = XmlElement (js ''e''), parent = None, children = []\<rparr>"
  "next_ref one_element = 1"
  unfolding one_element_def
  by (simp_all add: store_eval example_names empty_store_def)

lemma elem_with_attr_shape:
  "heap elem_with_attr 0 = \<lparr>obj = XmlElement (js ''e''), parent = None, children = [2]\<rparr>"
  "heap elem_with_attr (Suc 0) = \<lparr>obj = XmlText (js ''v''), parent = Some 2, children = []\<rparr>"
  "heap elem_with_attr 2 = \<lparr>obj = XmlAttribute (js ''a''), parent = Some 0, children = [1]\<rparr>"
  "next_ref elem_with_attr = 3"
  unfolding elem_with_attr_def
  by (simp_all add: store_eval example_names one_element_shape)

lemma elem_attr_text_shape:
  "heap elem_attr_text 0 = \<lparr>obj = XmlElement (js ''e''), parent = None, children = [2, 3]\<rparr>"
  "heap elem_attr_text (Suc 0) = \<lparr>obj = XmlText (js ''v''), parent = Some 2, children = []\<rparr>"
  "heap elem_attr_text 2 = \<lparr>obj = XmlAttribute (js ''a''), parent = Some 0, children = [1]\<rparr>"
  "heap elem_attr_text 3 = \<lparr>obj = XmlText (js ''t''), parent = Some 0, children = []\<rparr>"
  "next_ref elem_attr_text = 4"
  unfolding elem_attr_text_def
  by (simp_all add: store_eval example_names elem_with_attr_shape)

lemma self_child_shape:
  "heap self_child 0 = \<lparr>obj = XmlElement (js ''e''), parent = Some 0, children = [0]\<rparr>"
  unfolding self_child_def
  by (simp add: store_eval one_element_shape)

lemma three_elements_shape:
  "heap three_elements 0 = \<lparr>obj = XmlElement (js ''a''), parent = None, children = []\<rparr>"
  "heap three_elements (Suc 0) = \<lparr>obj = XmlElement (js ''b''), parent = None, children = []\<rparr>"
  "heap three_elements 2 = \<lparr>obj = XmlElement (js ''c''), parent = None, children = []\<rparr>"
  "next_ref three_elements = 3"
  unfolding three_elements_def
  by (simp_all add: store_eval example_names empty_store_def)

lemma c_under_a_shape:
  "heap c_under_a 0 = \<lparr>obj = XmlElement (js ''a''), parent = None, children = [2]\<rparr>"
  "heap c_under_a (Suc 0) = \<lparr>obj = XmlElement (js ''b''), parent = None, children = []\<rparr>"
  "heap c_under_a 2 = \<lparr>obj = XmlElement (js ''c''), parent = Some 0, children = []\<rparr>"
  "next_ref c_under_a = 3"
  unfolding c_under_a_def
  by (simp_all add: store_eval three_elements_shape)

lemma second_attr_shape:
  "heap second_attr 0 = \<lparr>obj = XmlElement (js ''e''), parent = None, children = [2]\<rparr>"
  "heap second_attr 2 = \<lparr>obj = XmlAttribute (js ''a''), parent = Some 0, children = [Suc 0]\<rparr>"
  "heap second_attr 3 = \<lparr>obj = XmlText (js ''t''), parent = Some 4, children = []\<rparr>"
  "heap second_attr 4 = \<lparr>obj = XmlAttribute (js ''a''), parent = None, children = [3]\<rparr>"
  "next_ref second_attr = 5"
  unfolding second_attr_def
  by (simp_all add: store_eval example_names elem_with_attr_shape)

lemma with_dtd_shape:
  "heap with_dtd 0 = \<lparr>obj = XmlElement (js ''e''), parent = None, children = []\<rparr>"
  "heap with_dtd (Suc 0) = \<lparr>obj = XmlDtdEntity (js ''abc''), parent = None, children = []\<rparr>"
  "next_ref with_dtd = 2"
  unfolding with_dtd_def
  by (simp_all add: store_eval new_XmlDtdEntity_def XmlDtdEntity_set_text_def one_element_shape
      js_def bmpChar_def)

lemma three_made_shape:
  "heap three_made 0 = \<lparr>obj = XmlElement (js ''e''), parent = None, children = [2]\<rparr>"
  "heap three_made (Suc 0) = \<lparr>obj = XmlText (js ''v''), parent = Some 2, children = []\<rparr>"
  "heap three_made 2 = \<lparr>obj = XmlAttribute (js ''a''), parent = Some 0, children = [Suc 0]\<rparr>"
  "heap three_made 3 = \<lparr>obj = XmlText (js ''x''), parent = None, children = []\<rparr>"
  "heap three_made 4 = \<lparr>obj = XmlText (js ''y''), parent = None, children = []\<rparr>"
  "heap three_made 5 = \<lparr>obj = XmlCdata (js ''z''), parent = None, children = []\<rparr>"
  "next_ref three_made = 6"
  unfolding three_made_def
  by (simp_all add: store_eval new_XmlCdata_def XmlCdata_set_data_def elem_with_attr_shape
      js_def bmpChar_def starts_with_def)

lemma mixed_shape:
  "heap mixed 0 = \<lparr>obj = XmlElement (js ''e''), parent = None, children = [2, 3, 4, 5]\<rparr>"
  "heap mixed (Suc 0) = \<lparr>obj = XmlText (js ''v''), parent = Some 2, children = []\<rparr>"
  "heap mixed 2 = \<lparr>obj = XmlAttribute (js ''a''), parent = Some 0, children = [Suc 0]\<rparr>"
  "heap mixed 3 = \<lparr>obj = XmlText (js ''x''), parent = Some 0, children = []\<rparr>"
  "heap mixed 4 = \<lparr>obj = XmlText (js ''y''), parent = Some 0, children = []\<rparr>"
  "heap mixed 5 = \<lparr>obj = XmlCdata (js ''z''), parent = Some 0, children = []\<rparr>"
  "next_ref mixed = 6"
proof -
  define s1 where "s1 = snd (insertChild three_made 0 3 None)"
  define s2 where "s2 = snd (insertChild s1 0 4 None)"
  have 1: "heap s1 0 = \<lparr>obj = XmlElement (js ''e''), parent = None, children = [2, 3]\<rparr>"
    "heap s1 (Suc 0) = \<lparr>obj = XmlText (js ''v''), parent = Some 2, children = []\<rparr>"
    "heap s1 2 = \<lparr>obj = XmlAttribute (js ''a''), parent = Some 0, children = [Suc 0]\<rparr>"
    "heap s1 3 = \<lparr>obj = XmlText (js ''x''), parent = Some 0, children = []\<rparr>"
    "heap s1 4 = \<lparr>obj = XmlText (js ''y''), parent = None, children = []\<rparr>"
    "heap s1 5 = \<lparr>obj = XmlCdata (js ''z''), parent = None, children = []\<rparr>"
    "next_ref s1 = 6"
    unfolding s1_def by (simp_all add: store_eval three_made_shape)
  have 2: "heap s2 0 = \<lparr>obj = XmlElement (js ''e''), parent = None, children = [2, 3, 4]\<rparr>"
    "heap s2 (Suc 0) = \<lparr>obj = XmlText (js ''v''), parent = Some 2, children = []\<rparr>"
    "heap s2 2 = \<lparr>obj = XmlAttribute (js ''a''), parent = Some 0, children = [Suc 0]\<rparr>"
    "heap s2 3 = \<lparr>obj = XmlText (js ''x''), parent = Some 0, children = []\<rparr>"
    "heap s2 4 = \<lparr>obj = XmlText (js ''y''), parent = Some 0, children = []\<rparr>"
    "heap s2 5 = \<lparr>obj = XmlCdata (js ''z''), parent = None, children = []\<rparr>"
    "next_ref s2 = 6"
    unfolding s2_def by (simp_all add: store_eval 1)
  have m: "mixed = snd (insertChild s2 0 5 None)"
    unfolding mixed_def s1_def s2_def ..
  show "heap mixed 0 = \<lparr>obj = XmlElement (js ''e''), parent = None, children = [2, 3, 4, 5]\<rparr>"
    "heap mixed (Suc 0) = \<lparr>obj = XmlText (js ''v''), parent = Some 2, children = []\<rparr>"
    "heap mixed 2 = \<lparr>obj = XmlAttribute (js ''a''), parent = Some 0, children = [Suc 0]\<rparr>"
    "heap mixed 3 = \<lparr>obj = XmlText (js ''x''), parent = Some 0, children = []\<rparr>"
    "heap mixed 4 = \<lparr>obj = XmlText (js ''y''), parent = Some 0, children = []\<rparr>"
    "heap mixed 5 = \<lparr>obj = XmlCdata (js ''z''), parent = Some 0, children = []\<rparr>"
    "next_ref mixed = 6"
    unfolding m by (simp_all add: store_eval 2)
qed


lemma c_under_b_shape:
  "heap c_under_b 0 = \<lparr>obj = XmlElement (js ''a''), parent = None, children = []\<rparr>"
  "heap c_under_b (Suc 0) = \<lparr>obj = XmlElement (js ''b''), parent = None, children = [2]\<rparr>"
  "heap c_under_b 2 = \<lparr>obj = XmlElement (js ''c''), parent = Some (Suc 0), children = []\<rparr>"
  "next_ref c_under_b = 3"
  unfolding c_under_b_def
  by (simp_all add: store_eval three_elements_shape)

lemma nested_shape:
  "heap nested 0 = \<lparr>obj = XmlElement (js ''a''), parent = None, children = [Suc 0]\<rparr>"
  "heap nested (Suc 0) = \<lparr>obj = XmlElement (js ''b''), parent = Some 0, children = [2]\<rparr>"
  "heap nested 2 = \<lparr>obj = XmlElement (js ''c''), parent = Some (Suc 0), children = []\<rparr>"
  "next_ref nested = 3"
  unfolding nested_def
  by (simp_all add: store_eval c_under_b_shape)

lemma cdata_made_shape:
  "heap cdata_made 0 = \<lparr>obj = XmlElement (js ''e''), parent = None, children = []\<rparr>"
  "heap cdata_made (Suc 0) = \<lparr>obj = XmlCdata (js ''z''), parent = None, children = []\<rparr>"
  "next_ref cdata_made = 2"
  unfolding cdata_made_def
  by (simp_all add: store_eval new_XmlCdata_def XmlCdata_set_data_def one_element_shape
      js_def bmpChar_def starts_with_def)

lemma cdata_child_shape:
  "heap cdata_child 0 = \<lparr>obj = XmlElement (js ''e''), parent = None, children = [Suc 0]\<rparr>"
  "heap cdata_child (Suc 0) = \<lparr>obj = XmlCdata (js ''z''), parent = Some 0, children = []\<rparr>"
  "next_ref cdata_child = 2"
  unfolding cdata_child_def
  by (simp_all add: store_eval cdata_made_shape)
section \<open>The interface stays within the reachable stores\<close>

text \<open>The constructors and the factory of the interface stay within the reachable stores.\<close>

lemma new_XmlText_reachable: "reachable s \<Longrightarrow> reachable (snd (new_XmlText s str))"
  using reachable_new [of s "XmlText str"]
  by (cases "validateChar str") (simp_all add: new_XmlText_valid new_XmlText_invalid)

lemma new_XmlCdata_reachable: "reachable s \<Longrightarrow> reachable (snd (new_XmlCdata s d))"
proof -
  assume r: "reachable s"
  have r1: "reachable (snd (alloc s (XmlCdata [])))" using r by (rule reachable_new)
  have "reachable (set_obj (snd (alloc s (XmlCdata []))) (next_ref s) (XmlCdata d))"
    using r1 by (rule reachable_set) simp
  then show ?thesis using r
    by (simp add: new_XmlCdata_def XmlCdata_set_data_def alloc_def)
qed

lemma new_XmlDtdEntity_reachable: "reachable s \<Longrightarrow> reachable (snd (new_XmlDtdEntity s d))"
proof -
  assume r: "reachable s"
  have r1: "reachable (snd (alloc s (XmlDtdEntity [])))" using r by (rule reachable_new)
  have "reachable (set_obj (snd (alloc s (XmlDtdEntity []))) (next_ref s) (XmlDtdEntity d))"
    using r1 by (rule reachable_set) simp
  then show ?thesis using r
    by (simp add: new_XmlDtdEntity_def XmlDtdEntity_set_text_def alloc_def)
qed

lemma insert_value_reachable:
  assumes "reachable s" "this < next_ref s" "\<forall>n\<in>set nodes. n < next_ref s"
    and "instanceof_XmlAttribute (obj (heap s this))"
  shows "reachable (snd (insert_value s this nodes))"
  using assms
proof (induction nodes arbitrary: s)
  case Nil
  then show ?case by simp
next
  case (Cons node nodes)
  have disp: "XmlAttribute_insertChild s this node None = insertChild s this node None"
    using Cons.prems(4) by (cases "obj (heap s this)") (simp_all add: insertChild_def)
  obtain r s1 where step: "XmlAttribute_insertChild s this node None = (r, s1)"
    by (cases "XmlAttribute_insertChild s this node None")
  have r1: "reachable s1"
    using reachable_insertChild [OF Cons.prems(1,2), of node None] Cons.prems(3) step disp
    by simp
  have n1: "next_ref s1 = next_ref s"
    using XmlAttribute_insertChild_frame(2) [of s this node None] step by simp
  have o1: "obj (heap s1 this) = obj (heap s this)"
    using XmlAttribute_insertChild_frame(1) [of s this node None this] step by simp
  show ?case
  proof (cases r)
    case (Inl e)
    then show ?thesis using step r1 by simp
  next
    case (Inr v)
    have "reachable (snd (insert_value s1 this nodes))"
      using Cons.IH [OF r1] Cons.prems(2,3,4) n1 o1 by simp
    then show ?thesis using step Inr by simp
  qed
qed

lemma new_XmlAttribute_reachable:
  assumes "reachable s" "\<forall>n\<in>set nodes. n < next_ref s"
  shows "reachable (snd (new_XmlAttribute s name nodes))"
proof (cases "validateName name")
  case False
  then show ?thesis using assms(1) by (simp add: new_XmlAttribute_def)
next
  case True
  define s1 where "s1 = snd (alloc s (XmlAttribute name))"
  have r1: "reachable s1" unfolding s1_def using assms(1) by (rule reachable_new)
  have "reachable (snd (insert_value s1 (next_ref s) nodes))"
    using assms(2) unfolding s1_def
    by (intro insert_value_reachable r1 [unfolded s1_def]) (auto simp: less_Suc_eq)
  then show ?thesis
    unfolding s1_def new_XmlAttribute_unfold [OF True]
    by (cases "insert_value (snd (alloc s (XmlAttribute name))) (next_ref s) nodes";
        cases "fst (insert_value (snd (alloc s (XmlAttribute name))) (next_ref s) nodes)")
       simp_all
qed

lemma attribute_loop_reachable:
  "reachable s \<Longrightarrow> \<forall>n\<in>set (item_nodes arr). n < next_ref s
    \<Longrightarrow> attribute_loop s arr i = (r, s', arr')
    \<Longrightarrow> reachable s' \<and> (\<forall>n\<in>set (item_nodes arr'). n < next_ref s')"
proof (induction s arr i arbitrary: r s' arr' rule: attribute_loop.induct)
  case (1 s arrayVal i)
  show ?case
  proof (cases "i < length arrayVal")
    case False
    then show ?thesis using "1.prems" by (simp add: attribute_loop.simps [of s arrayVal i])
  next
    case True
    show ?thesis
    proof (cases "arrayVal ! i")
      case (INode n)
      then have "attribute_loop s arrayVal (i + 1) = (r, s', arr')"
        using "1.prems"(3) True by (simp add: attribute_loop.simps [of s arrayVal i])
      from "1.IH"(2) [OF True INode "1.prems"(1,2) this] show ?thesis .
    next
      case (IString strVal)
      show ?thesis
      proof (cases "validateChar strVal")
        case False
        then show ?thesis using "1.prems" True IString
          by (simp add: attribute_loop.simps [of s arrayVal i] new_XmlText_invalid)
      next
        case valid: True
        define t where "t = next_ref s"
        define s1 where "s1 = snd (alloc s (XmlText strVal))"
        have mk: "(Inr t, s1) = new_XmlText s strVal"
          unfolding t_def s1_def using valid by (simp add: new_XmlText_valid)
        have r1: "reachable s1" unfolding s1_def using "1.prems"(1) by (rule reachable_new)
        have nx1: "next_ref s1 = Suc (next_ref s)" unfolding s1_def by simp
        have "\<forall>n\<in>set (item_nodes (arrayVal[i := INode t])). n < next_ref s1"
          using item_nodes_update [of arrayVal i t] "1.prems"(2) nx1 unfolding t_def
          by (auto simp: less_Suc_eq)
        moreover have "attribute_loop s1 (arrayVal[i := INode t]) (i + 1) = (r, s', arr')"
          using "1.prems"(3) True IString mk [symmetric]
          by (simp add: attribute_loop.simps [of s arrayVal i])
        ultimately show ?thesis using "1.IH"(1) [OF True IString mk refl r1] by blast
      qed
    qed
  qed
qed

lemma XmlElement_attribute_reachable:
  assumes r: "reachable s" and e: "this < next_ref s"
    and el: "variant_of (obj (heap s this)) = Element"
    and v: "\<forall>n\<in>set (value_nodes val). n < next_ref s"
  shows "reachable (snd (fst (XmlElement_attribute s this name val index)))"
proof -
  obtain rv s1 v1 where av: "attribute_value s val = (rv, s1, v1)"
    by (cases "attribute_value s val") auto
  note fr = attribute_value_frame [OF av]
  have r1: "reachable s1 \<and> (\<forall>nodes. rv = Inr nodes \<longrightarrow> (\<forall>n\<in>set nodes. n < next_ref s1))"
  proof (cases val)
    case (VString str)
    then show ?thesis using av new_XmlText_reachable [OF r, of str]
      by (cases "validateChar str") (auto simp: attribute_value_def new_XmlText_def alloc_def)
  next
    case (VNode n)
    then show ?thesis using av r v by (auto simp: attribute_value_def)
  next
    case (VArray arr)
    obtain r0 s0 a0 where l: "attribute_loop s arr 0 = (r0, s0, a0)"
      by (cases "attribute_loop s arr 0") auto
    have "\<forall>n\<in>set (item_nodes arr). n < next_ref s" using v VArray by simp
    from attribute_loop_reachable [OF r this l] l av VArray show ?thesis
      by (cases r0) (auto simp: attribute_value_def)
  qed
  show ?thesis
  proof (cases rv)
    case (Inl err)
    then show ?thesis using av r1 by (simp add: XmlElement_attribute_def)
  next
    case (Inr nodes)
    then have alloc'd: "\<forall>n\<in>set nodes. n < next_ref s1" using r1 by simp
    obtain ra s2 where na: "new_XmlAttribute s1 name nodes = (ra, s2)"
      by (cases "new_XmlAttribute s1 name nodes")
    have r2: "reachable s2"
      using new_XmlAttribute_reachable [OF conjunct1 [OF r1] alloc'd, of name] na by simp
    show ?thesis
    proof (cases ra)
      case (Inl err)
      then show ?thesis using av Inr na r2 by (simp add: XmlElement_attribute_def)
    next
      case attr: (Inr a)
      have a_eq: "a = next_ref s1"
        using new_XmlAttribute_frame(2) [of s1 name nodes a] na attr by simp
      have e1: "this < next_ref s1" using e fr(1) by simp
      have o2: "obj (heap s2 this) = obj (heap s this)"
        using new_XmlAttribute_frame(1) [OF e1, of name nodes] na fr(2) e by simp
      have vn: "validateName name"
        using na attr by (cases "validateName name") (simp_all add: new_XmlAttribute_def)
      have n2: "next_ref s2 = Suc (next_ref s1)"
        using na vn insert_value_frame [of "snd (alloc s1 (XmlAttribute name))" "next_ref s1" nodes]
        by (cases "insert_value (snd (alloc s1 (XmlAttribute name))) (next_ref s1) nodes";
            cases "fst (insert_value (snd (alloc s1 (XmlAttribute name))) (next_ref s1) nodes)")
           (simp_all add: new_XmlAttribute_unfold)
      have disp: "XmlElement_insertChild s2 this a index = insertChild s2 this a index"
        using el o2 by (cases "obj (heap s this)") (simp_all add: insertChild_def)
      have "reachable (snd (insertChild s2 this a index))"
        using r2 e1 a_eq n2 by (intro reachable_insertChild) simp_all
      then have r3: "reachable (snd (XmlElement_insertChild s2 this a index))"
        using disp by simp
      obtain r3' s3 where ic: "XmlElement_insertChild s2 this a index = (r3', s3)"
        by (cases "XmlElement_insertChild s2 this a index")
      show ?thesis using av Inr na attr ic r3
        by (cases r3') (simp_all add: XmlElement_attribute_def)
    qed
  qed
qed

lemma new_XmlElement_reachable: "reachable s \<Longrightarrow> reachable (snd (new_XmlElement s name))"
proof -
  assume r: "reachable s"
  have r1: "reachable (snd (alloc s (XmlElement [])))" using r by (rule reachable_new)
  have "reachable (set_obj (snd (alloc s (XmlElement []))) (next_ref s) (XmlElement name))"
    using r1 by (rule reachable_set) simp
  then show ?thesis using r
    by (simp add: new_XmlElement_def XmlElement_set_name_def split: prod.splits)
       (metis alloc_simps(1) fst_conv snd_conv)
qed

lemma three_elements_reachable: "reachable three_elements"
  unfolding three_elements_def
  by (intro new_XmlElement_reachable reachable_empty)

lemma c_under_a_reachable: "reachable c_under_a"
  unfolding c_under_a_def
  by (rule reachable_insertChild [OF three_elements_reachable])
     (simp_all add: three_elements_shape)

text \<open>
  Claim C3.  In every reachable store the parent back-reference of a node and its
  membership in the child sequence of that parent agree (\<open>n.parent = p\<close> iff \<open>n\<close> occurs
  among the children of \<open>p\<close>), a node occurs among the children of at most one node, and
  \<open>insertChild\<close>, \<open>removeChild\<close>, \<open>removeChildAtIndex\<close> and \<open>remove\<close> keep it so.  An
  \<open>insertChild\<close> of a node that has a different parent takes it out of the old parent's
  sequence (where it occurred once), puts it once into the new parent's sequence, and
  leaves its parent equal to the new parent.
\<close>

theorem parent_children_consistent:
  assumes "reachable s"
  shows "consistent s
    \<and> (\<forall>n p q. n \<in> set (children (heap s p)) \<and> n \<in> set (children (heap s q)) \<longrightarrow> p = q)
    \<and> consistent (snd (insertChild s this node index))
    \<and> consistent (snd (removeChild s this node))
    \<and> consistent (snd (removeChildAtIndex s this i))
    \<and> consistent (snd (XmlNode_remove s node))
    \<and> (\<forall>q r. parent (heap s node) = Some q \<and> q \<noteq> this
            \<and> fst (insertChild s this node index) = Inr r \<longrightarrow>
          r = Some node
          \<and> count_list (children (heap s q)) node = 1
          \<and> count_list (children (heap (snd (insertChild s this node index)) q)) node = 0
          \<and> set (children (heap (snd (insertChild s this node index)) q))
              = set (children (heap s q)) - {node}
          \<and> count_list (children (heap s this)) node = 0
          \<and> count_list (children (heap (snd (insertChild s this node index)) this)) node = 1
          \<and> parent (heap (snd (insertChild s this node index)) node) = Some this)"
proof -
  have c: "consistent s" using reachable_wf [OF assms] by simp
  have unique: "\<forall>n p q. n \<in> set (children (heap s p)) \<and> n \<in> set (children (heap s q)) \<longrightarrow> p = q"
    using c unfolding consistent_def by (metis option.inject)
  have move: "r = Some node
          \<and> count_list (children (heap s q)) node = 1
          \<and> count_list (children (heap (snd (insertChild s this node index)) q)) node = 0
          \<and> set (children (heap (snd (insertChild s this node index)) q))
              = set (children (heap s q)) - {node}
          \<and> count_list (children (heap s this)) node = 0
          \<and> count_list (children (heap (snd (insertChild s this node index)) this)) node = 1
          \<and> parent (heap (snd (insertChild s this node index)) node) = Some this"
    if h: "parent (heap s node) = Some q" "q \<noteq> this" "fst (insertChild s this node index) = Inr r"
    for q r
  proof -
    have eq: "insertChild s this node index = XmlNode_insertChild s this node index"
      using insertChild_success [OF h(3)] .
    have ok: "fst (XmlNode_insertChild s this node index) = Inr r" using h(3) eq by simp
    note m = XmlNode_insertChild_move [OF c h(1) h(2) ok]
    have "node \<notin> set (children (heap (snd (XmlNode_insertChild s this node index)) q))"
      using m(3) by simp
    then have "count_list (children (heap (snd (XmlNode_insertChild s this node index)) q)) node = 0"
      by simp
    then show ?thesis unfolding eq using m by simp
  qed
  show ?thesis
    using c unique move insertChild_consistent [OF c] removeChild_consistent [OF c]
      removeChildAtIndex_consistent [OF c] remove_consistent [OF c]
    by blast
qed

theorem parent_children_consistent_witness:
  "reachable c_under_a
   \<and> parent (heap c_under_a 2) = Some 0
   \<and> fst (insertChild c_under_a 1 2 None) = Inr (Some 2)
   \<and> consistent c_under_a
   \<and> consistent (snd (insertChild c_under_a 1 2 None))
   \<and> count_list (children (heap c_under_a 0)) 2 = 1
   \<and> count_list (children (heap (snd (insertChild c_under_a 1 2 None)) 0)) 2 = 0
   \<and> count_list (children (heap (snd (insertChild c_under_a 1 2 None)) 1)) 2 = 1
   \<and> parent (heap (snd (insertChild c_under_a 1 2 None)) 2) = Some 1"
proof -
  have p: "parent (heap c_under_a 2) = Some 0"
    by (simp add: c_under_a_shape)
  have ok: "fst (insertChild c_under_a 1 2 None) = Inr (Some 2)"
    by (simp add: store_eval c_under_a_shape)
  have ne: "(0::nat) \<noteq> 1" by simp
  show ?thesis
    using parent_children_consistent [OF c_under_a_reachable, of 1 2 None] p ok ne
      c_under_a_reachable
    by blast
qed

section \<open>XmlCdata\<close>

text \<open>
  Claim C8.  Constructing a CDATA node with the string \<open>d\<close>, or assigning \<open>d\<close> to its
  \<open>data\<close>, fails with \<open>InvalidCharacterData\<close> iff \<open>d\<close> is not legal character data or
  contains \<open>]]>\<close>; otherwise the data stored is \<open>d\<close> itself, and for every options
  value \<open>toString\<close> returns \<open><![CDATA[\<close> followed by \<open>d\<close> and \<open>]]>\<close>.
\<close>

theorem cdata_data_validated:
  "(fst (new_XmlCdata s d) = Inl InvalidCharacterData
      \<longleftrightarrow> \<not> validateChar d \<or> (\<exists>p q. d = p @ js '']]>'' @ q))
   \<and> (fst (XmlCdata_set_data s this d) = Inl InvalidCharacterData
      \<longleftrightarrow> \<not> validateChar d \<or> (\<exists>p q. d = p @ js '']]>'' @ q))
   \<and> (validateChar d \<and> \<not> (\<exists>p q. d = p @ js '']]>'' @ q) \<longrightarrow>
        (\<exists>r s'. new_XmlCdata s d = (Inr r, s') \<and> XmlCdata_get_data s' r = d
           \<and> (\<forall>options :: 'o. XmlCdata_toString s' r options = js ''<![CDATA['' @ d @ js '']]>'')
           \<and> (\<forall>ext mk depth. \<forall>options :: 'o. toString ext mk (Suc depth) s' r options
                 = Some (Inr (js ''<![CDATA['' @ d @ js '']]>''))))
        \<and> (\<exists>s'. XmlCdata_set_data s this d = (Inr (), s') \<and> XmlCdata_get_data s' this = d
           \<and> (\<forall>options :: 'o. XmlCdata_toString s' this options = js ''<![CDATA['' @ d @ js '']]>'')
           \<and> (\<forall>ext mk depth. \<forall>options :: 'o. toString ext mk (Suc depth) s' this options
                 = Some (Inr (js ''<![CDATA['' @ d @ js '']]>'')))))"
  by (auto simp: new_XmlCdata_def XmlCdata_set_data_def regex_test_iff XmlCdata_get_data_def
      XmlCdata_toString_def alloc_def split: prod.splits)

theorem cdata_data_validated_witness:
  "validateChar (js ''a]]b'')
   \<and> \<not> (\<exists>p q. js ''a]]b'' = p @ js '']]>'' @ q)
   \<and> (\<exists>r s'. new_XmlCdata empty_store (js ''a]]b'') = (Inr r, s')
        \<and> XmlCdata_get_data s' r = js ''a]]b''
        \<and> XmlCdata_toString s' r () = js ''<![CDATA[a]]b]]>'')
   \<and> fst (new_XmlCdata empty_store (js ''a]]>b'')) = Inl InvalidCharacterData"
proof -
  have v: "validateChar (js ''a]]b'')" by (simp add: js_def bmpChar_def)
  have "\<not> regex_test (js '']]>'') (js ''a]]b'')" by (simp add: js_def starts_with_def)
  then have n: "\<not> (\<exists>p q. js ''a]]b'' = p @ js '']]>'' @ q)"
    using regex_test_iff [of "js '']]>''" "js ''a]]b''"] by blast
  have "regex_test (js '']]>'') (js ''a]]>b'')" by (simp add: js_def starts_with_def)
  then have y: "\<exists>p q. js ''a]]>b'' = p @ js '']]>'' @ q"
    using regex_test_iff [of "js '']]>''" "js ''a]]>b''"] by blast
  have lit: "js ''<![CDATA['' @ js ''a]]b'' @ js '']]>'' = js ''<![CDATA[a]]b]]>''"
    by (simp add: js_def)
  show ?thesis
    using cdata_data_validated [of empty_store "js ''a]]b''" 0, where ?'o = unit]
      cdata_data_validated [of empty_store "js ''a]]>b''" 0, where ?'o = unit] v n y lit
    by (metis (full_types))
qed

section \<open>Inserting into an element\<close>

lemma element_child_variant:
  "element_child ob \<longleftrightarrow> variant_of ob \<in> {Attribute, CDATA, CharacterReference, Comment, Element,
      EntityReference, ProcessingInstruction, Text}"
  by (cases ob) simp_all

lemma instanceof_XmlAttribute_variant: "instanceof_XmlAttribute ob \<longleftrightarrow> variant_of ob = Attribute"
  by (cases ob) simp_all

text \<open>
  Claim C5.  For an Element \<open>e\<close> and a node \<open>n\<close>, \<open>e.insertChild(n, i)\<close> fails with
  \<open>InvalidArgument\<close> when the variant of \<open>n\<close> is outside Attribute, CDATA,
  Character-Reference, Comment, Element, Entity-Reference, Processing-Instruction and
  Text; for \<open>n\<close> of one of these variants (and, for an Attribute, with no Attribute of
  the same name among the children of \<open>e\<close>) it is the insertion of the base class.
\<close>

theorem element_insertChild_classes:
  assumes "variant_of (obj (heap s e)) = Element"
  shows "(variant_of (obj (heap s node)) \<notin> {Attribute, CDATA, CharacterReference, Comment, Element,
             EntityReference, ProcessingInstruction, Text}
          \<longrightarrow> insertChild s e node index = (Inl InvalidArgument, s))
    \<and> (variant_of (obj (heap s node)) \<in> {Attribute, CDATA, CharacterReference, Comment, Element,
             EntityReference, ProcessingInstruction, Text}
        \<and> (variant_of (obj (heap s node)) = Attribute \<longrightarrow>
             (\<forall>a \<in> set (children (heap s e)). variant_of (obj (heap s a)) = Attribute
                \<longrightarrow> XmlAttribute_name s a \<noteq> XmlAttribute_name s node))
          \<longrightarrow> insertChild s e node index = XmlNode_insertChild s e node index)"
proof -
  have e: "insertChild s e node index = XmlElement_insertChild s e node index"
    using assms by (cases "obj (heap s e)") (simp_all add: insertChild_def)
  show ?thesis
    unfolding e XmlElement_insertChild_def element_child_variant instanceof_XmlAttribute_variant
    by (auto simp: list_ex_iff)
qed

theorem element_insertChild_classes_witness:
  "variant_of (obj (heap with_dtd 0)) = Element
   \<and> variant_of (obj (heap with_dtd 1)) = DTDEntity
   \<and> insertChild with_dtd 0 1 None = (Inl InvalidArgument, with_dtd)
   \<and> variant_of (obj (heap second_attr 3)) = Text
   \<and> insertChild second_attr 0 3 None = XmlNode_insertChild second_attr 0 3 None
   \<and> fst (insertChild second_attr 0 3 None) = Inr (Some 3)"
proof -
  have 1: "variant_of (obj (heap with_dtd 0)) = Element"
    "variant_of (obj (heap with_dtd 1)) = DTDEntity"
    by (simp_all add: with_dtd_shape)
  have 2: "variant_of (obj (heap second_attr 0)) = Element"
    "variant_of (obj (heap second_attr 3)) = Text"
    by (simp_all add: second_attr_shape)
  have 3: "fst (XmlNode_insertChild second_attr 0 3 None) = Inr (Some 3)"
    by (simp add: store_eval second_attr_shape)
  show ?thesis
    using element_insertChild_classes [OF 1(1), of 1 None]
      element_insertChild_classes [OF 2(1), of 3 None] 1 2 3
    by simp
qed

text \<open>
  Inserting a node that is a child already: the base class returns \<open>undefined\<close> and
  leaves everything as it is, and so does an element for a child that is no Attribute.
\<close>

lemma XmlNode_insertChild_present:
  assumes "node \<in> set (children (heap s this))"
    and "index = None \<or> (\<exists>i. index = Some (Integer i) \<and> 0 \<le> i
           \<and> i \<le> int (length (children (heap s this))))"
  shows "XmlNode_insertChild s this node index = (Inr None, s)"
  using assms by (auto simp: XmlNode_insertChild_def indexOf_minus1)

lemma XmlElement_insertChild_present:
  assumes "node \<in> set (children (heap s this))"
    and "index = None \<or> (\<exists>i. index = Some (Integer i) \<and> 0 \<le> i
           \<and> i \<le> int (length (children (heap s this))))"
    and "element_child (obj (heap s node))" "\<not> instanceof_XmlAttribute (obj (heap s node))"
  shows "XmlElement_insertChild s this node index = (Inr None, s)"
  using assms XmlNode_insertChild_present [OF assms(1,2)]
  by (simp add: XmlElement_insertChild_def)

text \<open>
  Claim C2.  Inserting a node that is a direct child already is a no-op that returns
  \<open>undefined\<close>, for every node that permits children.  On the code this fails for an
  Element and one of its Attribute children: the scan for an Attribute of the same name
  finds the node itself, and the call throws where the insertion of the base class
  returns \<open>undefined\<close>; the store is left as it was.
\<close>

theorem element_reinsert_attribute_throws:
  "2 \<in> set (children (heap elem_with_attr 0))
   \<and> obj (heap elem_with_attr 0) = XmlElement (js ''e'')
   \<and> obj (heap elem_with_attr 2) = XmlAttribute (js ''a'')
   \<and> insertChild elem_with_attr 0 2 (Some (Integer 0)) = (Inl DuplicateAttribute, elem_with_attr)
   \<and> XmlNode_insertChild elem_with_attr 0 2 (Some (Integer 0)) = (Inr None, elem_with_attr)"
  by (simp add: store_eval elem_with_attr_shape)

text \<open>
  Claim C4, amended.  Let the Element \<open>e\<close> have an Attribute child with name \<open>m\<close>.
  Then \<open>e.insertChild(a2, i)\<close> for an Attribute \<open>a2\<close> with name \<open>m\<close> fails with
  \<open>DuplicateAttribute\<close> and changes nothing.  The factory \<open>e.attribute(m, value, i)\<close>,
  once it has constructed the Attribute, fails with \<open>DuplicateAttribute\<close> and leaves
  the Attribute children of \<open>e\<close> as they were; the whole child sequence of \<open>e\<close> is
  unchanged when no node handed over in \<open>value\<close> was a child of \<open>e\<close>.
\<close>

theorem duplicate_attribute_rejected:
  assumes e: "e < next_ref s"
    and k: "\<forall>n\<in>set (children (heap s e)). n < next_ref s"
    and el: "variant_of (obj (heap s e)) = Element"
    and a1: "a1 \<in> set (children (heap s e))" "obj (heap s a1) = XmlAttribute m"
  shows "(obj (heap s a2) = XmlAttribute m \<longrightarrow>
           insertChild s e a2 index = (Inl DuplicateAttribute, s))
    \<and> (\<forall>nodes s1 v1 a s2.
          attribute_value s val = (Inr nodes, s1, v1) \<and> new_XmlAttribute s1 m nodes = (Inr a, s2)
          \<longrightarrow> XmlElement_attribute s e m val index = ((Inl DuplicateAttribute, s2), v1)
              \<and> XmlElement_attributes s2 e = XmlElement_attributes s e
              \<and> (set (value_nodes val) \<inter> set (children (heap s e)) = {}
                   \<longrightarrow> children (heap s2 e) = children (heap s e)))"
proof (intro conjI allI impI)
  have disp: "\<And>s' n i. obj (heap s' e) = obj (heap s e)
      \<Longrightarrow> insertChild s' e n i = XmlElement_insertChild s' e n i"
    using el by (cases "obj (heap s e)") (simp_all add: insertChild_def)
  assume a2: "obj (heap s a2) = XmlAttribute m"
  have "list_ex (\<lambda>attribute. XmlAttribute_name s attribute = XmlAttribute_name s a2)
          (filter (\<lambda>n. instanceof_XmlAttribute (obj (heap s n))) (children (heap s e)))"
    unfolding list_ex_iff using a1 a2 by (auto simp: XmlAttribute_name_def)
  then show "insertChild s e a2 index = (Inl DuplicateAttribute, s)"
    using a2 disp [of s] by (simp add: XmlElement_insertChild_def)
next
  fix nodes s1 v1 a s2
  assume h: "attribute_value s val = (Inr nodes, s1, v1) \<and> new_XmlAttribute s1 m nodes = (Inr a, s2)"
  then have av: "attribute_value s val = (Inr nodes, s1, v1)"
    and na: "new_XmlAttribute s1 m nodes = (Inr a, s2)" by simp_all
  note fr = attribute_value_frame [OF av]
  have e1: "e < next_ref s1" using e fr(1) by simp
  have vn: "validateName m" using na by (cases "validateName m") (simp_all add: new_XmlAttribute_def)
  define s1' where "s1' = snd (alloc s1 (XmlAttribute m))"
  have a_eq: "a = next_ref s1" using new_XmlAttribute_frame(2) [of s1 m nodes a] na by simp
  have s2_eq: "s2 = snd (insert_value s1' a nodes)"
    using na vn unfolding s1'_def a_eq
    by (cases "insert_value (snd (alloc s1 (XmlAttribute m))) (next_ref s1) nodes";
        cases "fst (insert_value (snd (alloc s1 (XmlAttribute m))) (next_ref s1) nodes)")
       (simp_all add: new_XmlAttribute_unfold)
  have ea: "e \<noteq> a" using e1 a_eq by simp
  note iv = insert_value_frame [of s1' a nodes e]
  have obj2: "\<And>y. obj (heap s2 y) = obj (heap s1' y)" using iv s2_eq by simp
  have ch1': "children (heap s1' e) = children (heap s e)"
    using fr(2) e e1 unfolding s1'_def by simp
  have alloc_old: "\<And>n. n < next_ref s \<Longrightarrow> obj (heap s1' n) = obj (heap s n)"
    using fr(1) fr(2) unfolding s1'_def by simp
  have kids: "\<And>n. n \<in> set (children (heap s e)) \<Longrightarrow> n < next_ref s"
    using k by blast
  have "XmlElement_attributes s2 e
      = filter (\<lambda>n. instanceof_XmlAttribute (obj (heap s1' n))) (children (heap s2 e))"
    unfolding XmlElement_attributes_def obj2 ..
  also have "\<dots> = filter (\<lambda>n. instanceof_XmlAttribute (obj (heap s1' n))) (children (heap s1' e))"
    using iv ea s2_eq by simp
  also have "\<dots> = filter (\<lambda>n. instanceof_XmlAttribute (obj (heap s n))) (children (heap s e))"
    unfolding ch1' using kids alloc_old by (intro filter_cong) auto
  finally show attrs: "XmlElement_attributes s2 e = XmlElement_attributes s e"
    unfolding XmlElement_attributes_def .
  have "a1 \<in> set (XmlElement_attributes s e)"
    unfolding XmlElement_attributes_def using a1 by simp
  then have a1_in: "a1 \<in> set (XmlElement_attributes s2 e)"
    using attrs by simp
  have a1_name: "XmlAttribute_name s2 a1 = m"
    using a1 kids [OF a1(1)] alloc_old obj2 by (simp add: XmlAttribute_name_def)
  have a_obj: "obj (heap s2 a) = XmlAttribute m"
    using new_XmlAttribute_frame(3) [of s1 m nodes a] na by simp
  have "list_ex (\<lambda>attribute. XmlAttribute_name s2 attribute = XmlAttribute_name s2 a)
          (filter (\<lambda>n. instanceof_XmlAttribute (obj (heap s2 n))) (children (heap s2 e)))"
    unfolding list_ex_iff using a1_in a1_name a_obj
    by (auto simp: XmlAttribute_name_def XmlElement_attributes_def)
  then have "XmlElement_insertChild s2 e a index = (Inl DuplicateAttribute, s2)"
    using a_obj by (simp add: XmlElement_insertChild_def)
  then show "XmlElement_attribute s e m val index = ((Inl DuplicateAttribute, s2), v1)"
    using av na by (simp add: XmlElement_attribute_def)
  show "children (heap s2 e) = children (heap s e)"
    if d: "set (value_nodes val) \<inter> set (children (heap s e)) = {}"
  proof -
    have "set nodes \<subseteq> set (value_nodes val) \<union> {t. next_ref s \<le> t}" using fr(3) by simp
    moreover have "\<And>x. x \<in> set (children (heap s e)) \<Longrightarrow> \<not> next_ref s \<le> x"
      using kids by (simp add: not_le)
    then have "{t. next_ref s \<le> t} \<inter> set (children (heap s e)) = {}"
      by auto
    ultimately have "set nodes \<inter> set (children (heap s1' e)) = {}"
      unfolding ch1' using d by auto
    then show ?thesis using iv ea s2_eq ch1' by simp
  qed
qed

theorem duplicate_attribute_rejected_witness:
  "insertChild second_attr 0 4 None = (Inl DuplicateAttribute, second_attr)
   \<and> XmlElement_attribute elem_with_attr 0 (js ''a'') (VString (js ''t'')) None
       = ((Inl DuplicateAttribute, second_attr), VString (js ''t''))
   \<and> XmlElement_attributes second_attr 0 = XmlElement_attributes elem_with_attr 0
   \<and> children (heap second_attr 0) = children (heap elem_with_attr 0)"
proof -
  have h1: "0 < next_ref second_attr"
    "\<forall>n\<in>set (children (heap second_attr 0)). n < next_ref second_attr"
    "variant_of (obj (heap second_attr 0)) = Element"
    "2 \<in> set (children (heap second_attr 0))"
    "obj (heap second_attr 2) = XmlAttribute (js ''a'')"
    "obj (heap second_attr 4) = XmlAttribute (js ''a'')"
    by (simp_all add: second_attr_shape)
  have h2: "0 < next_ref elem_with_attr"
    "\<forall>n\<in>set (children (heap elem_with_attr 0)). n < next_ref elem_with_attr"
    "variant_of (obj (heap elem_with_attr 0)) = Element"
    "2 \<in> set (children (heap elem_with_attr 0))"
    "obj (heap elem_with_attr 2) = XmlAttribute (js ''a'')"
    by (simp_all add: elem_with_attr_shape)
  have av: "attribute_value elem_with_attr (VString (js ''t''))
      = (Inr [3], snd (new_XmlText elem_with_attr (js ''t'')), VString (js ''t''))"
    by (simp add: attribute_value_def new_XmlText_def example_names alloc_def elem_with_attr_shape)
  have na: "new_XmlAttribute (snd (new_XmlText elem_with_attr (js ''t''))) (js ''a'') [3]
      = (Inr 4, second_attr)"
    unfolding second_attr_def
    by (simp add: store_eval example_names elem_with_attr_shape)
  have d: "set (value_nodes (VString (js ''t''))) \<inter> set (children (heap elem_with_attr 0)) = {}"
    by simp
  show ?thesis
    using duplicate_attribute_rejected [OF h1(1-5), of 4 None]
      duplicate_attribute_rejected [OF h2, of 0 None "VString (js ''t'')"] h1(6) av na d
    by blast
qed

theorem attribute_moves_value_counterexample:
  "variant_of (obj (heap elem_attr_text 0)) = Element
   \<and> obj (heap elem_attr_text 2) = XmlAttribute (js ''a'')
   \<and> children (heap elem_attr_text 0) = [2, 3]
   \<and> fst (fst (XmlElement_attribute elem_attr_text 0 (js ''a'') (VNode 3) None))
       = Inl DuplicateAttribute
   \<and> children (heap (snd (fst (XmlElement_attribute elem_attr_text 0 (js ''a'') (VNode 3) None))) 0)
       = [2]"
  by (simp add: store_eval example_names elem_attr_text_shape)

text \<open>
  Claim C10, amended.  In a call \<open>e.attribute(name, value, index)\<close> where \<open>value\<close> is an
  array whose string entries are all legal character data, the array of the caller is
  changed in place: each string entry is replaced by a Text node constructed in the call
  (not in the store before, holding that string, and older than the Attribute), the
  other entries stay, and after the call, whether it returns or throws, the array holds
  no string.
\<close>

theorem attribute_array_replaced:
  assumes "\<forall>x\<in>set arr. \<forall>str. x = IString str \<longrightarrow> validateChar str"
  shows "\<exists>arr'. snd (XmlElement_attribute s e name (VArray arr) index) = VArray arr'
     \<and> length arr' = length arr
     \<and> (\<forall>j<length arr.
          case arr ! j of
            IString str \<Rightarrow>
              (\<exists>t. arr' ! j = INode t \<and> next_ref s \<le> t
                 \<and> obj (heap (snd (fst (XmlElement_attribute s e name (VArray arr) index))) t)
                     = XmlText str
                 \<and> (\<forall>a. fst (fst (XmlElement_attribute s e name (VArray arr) index)) = Inr a
                        \<longrightarrow> t < a))
          | INode n \<Rightarrow> arr' ! j = INode n)
     \<and> (\<forall>str. IString str \<notin> set arr')"
proof -
  have pre: "\<forall>j. 0 \<le> j \<and> j < length arr \<longrightarrow> (\<forall>str. arr ! j = IString str \<longrightarrow> validateChar str)"
  proof (intro allI impI)
    fix j str assume "0 \<le> j \<and> j < length arr" "arr ! j = IString str"
    then have "j < length arr" and eq: "arr ! j = IString str" by simp_all
    then have "arr ! j \<in> set arr" using nth_mem by blast
    then show "validateChar str" using assms [rule_format, of "arr ! j" str] eq by blast
  qed
  obtain s1 arr' where l: "attribute_loop s arr 0 = (Inr (), s1, arr')"
    and len: "length arr' = length arr"
    and each: "\<forall>j. 0 \<le> j \<and> j < length arr \<longrightarrow>
          (case arr ! j of
             IString str \<Rightarrow> (\<exists>t. arr' ! j = INode t \<and> next_ref s \<le> t \<and> t < next_ref s1
                                \<and> obj (heap s1 t) = XmlText str)
           | INode n \<Rightarrow> arr' ! j = INode n)"
    using attribute_loop_valid [OF pre, of s] by (elim exE conjE) (rule that)
  have av: "attribute_value s (VArray arr) = (Inr (item_nodes arr'), s1, VArray arr')"
    using l by (simp add: attribute_value_def)
  define res where "res = XmlElement_attribute s e name (VArray arr) index"
  obtain ra s2 where na: "new_XmlAttribute s1 name (item_nodes arr') = (ra, s2)"
    by (cases "new_XmlAttribute s1 name (item_nodes arr')")
  have o2: "\<And>t. t < next_ref s1 \<Longrightarrow> obj (heap s2 t) = obj (heap s1 t)"
    using new_XmlAttribute_frame(1) [of _ s1 name "item_nodes arr'"] na by simp
  have val: "snd res = VArray arr'"
  proof (cases ra)
    case (Inl err)
    then show ?thesis unfolding res_def using av na by (simp add: XmlElement_attribute_def)
  next
    case (Inr a)
    obtain r3 s3 where ic: "XmlElement_insertChild s2 e a index = (r3, s3)"
      by (cases "XmlElement_insertChild s2 e a index")
    show ?thesis unfolding res_def using av na Inr ic
      by (cases r3) (simp_all add: XmlElement_attribute_def)
  qed
  have st: "\<And>t. t < next_ref s1 \<Longrightarrow> obj (heap (snd (fst res)) t) = obj (heap s1 t)"
  proof -
    fix t assume t: "t < next_ref s1"
    show "obj (heap (snd (fst res)) t) = obj (heap s1 t)"
    proof (cases ra)
      case (Inl err)
      then show ?thesis unfolding res_def using av na o2 [OF t]
        by (simp add: XmlElement_attribute_def)
    next
      case (Inr a)
      obtain r3 s3 where ic: "XmlElement_insertChild s2 e a index = (r3, s3)"
        by (cases "XmlElement_insertChild s2 e a index")
      have "obj (heap s3 t) = obj (heap s2 t)"
        using XmlElement_insertChild_frame [of s2 e a index t] ic by simp
      then show ?thesis unfolding res_def using av na Inr ic o2 [OF t]
        by (cases r3) (simp_all add: XmlElement_attribute_def)
    qed
  qed
  have built: "\<And>a. fst (fst res) = Inr a \<Longrightarrow> a = next_ref s1"
  proof -
    fix a assume ok: "fst (fst res) = Inr a"
    show "a = next_ref s1"
    proof (cases ra)
      case (Inl err)
      then show ?thesis using ok unfolding res_def using av na
        by (simp add: XmlElement_attribute_def)
    next
      case (Inr a')
      obtain r3 s3 where ic: "XmlElement_insertChild s2 e a' index = (r3, s3)"
        by (cases "XmlElement_insertChild s2 e a' index")
      have "a = a'" using ok unfolding res_def using av na Inr ic
        by (cases r3) (simp_all add: XmlElement_attribute_def)
      then show ?thesis using new_XmlAttribute_frame(2) [of s1 name "item_nodes arr'" a'] na Inr
        by simp
    qed
  qed
  have entries: "\<forall>j<length arr.
          case arr ! j of
            IString str \<Rightarrow>
              (\<exists>t. arr' ! j = INode t \<and> next_ref s \<le> t
                 \<and> obj (heap (snd (fst res)) t) = XmlText str
                 \<and> (\<forall>a. fst (fst res) = Inr a \<longrightarrow> t < a))
          | INode n \<Rightarrow> arr' ! j = INode n"
  proof (intro allI impI)
    fix j assume j: "j < length arr"
    then have e: "case arr ! j of
             IString str \<Rightarrow> (\<exists>t. arr' ! j = INode t \<and> next_ref s \<le> t \<and> t < next_ref s1
                                \<and> obj (heap s1 t) = XmlText str)
           | INode n \<Rightarrow> arr' ! j = INode n"
      using each by simp
    show "case arr ! j of
            IString str \<Rightarrow>
              (\<exists>t. arr' ! j = INode t \<and> next_ref s \<le> t
                 \<and> obj (heap (snd (fst res)) t) = XmlText str
                 \<and> (\<forall>a. fst (fst res) = Inr a \<longrightarrow> t < a))
          | INode n \<Rightarrow> arr' ! j = INode n"
    proof (cases "arr ! j")
      case (INode n)
      then show ?thesis using e by simp
    next
      case (IString str)
      then obtain t where t: "arr' ! j = INode t" "next_ref s \<le> t" "t < next_ref s1"
          "obj (heap s1 t) = XmlText str"
        using e by auto
      have "obj (heap (snd (fst res)) t) = XmlText str" using st [OF t(3)] t(4) by simp
      moreover have "\<forall>a. fst (fst res) = Inr a \<longrightarrow> t < a" using built t(3) by auto
      ultimately show ?thesis using IString t(1) t(2) by simp
    qed
  qed
  have nostr: "\<forall>str. IString str \<notin> set arr'"
  proof (intro allI notI)
    fix str assume "IString str \<in> set arr'"
    then obtain j where j: "j < length arr'" "arr' ! j = IString str"
      by (auto simp: in_set_conv_nth)
    then have "j < length arr" using len by simp
    then have "case arr ! j of
            IString str \<Rightarrow> (\<exists>t. arr' ! j = INode t)
          | INode n \<Rightarrow> arr' ! j = INode n"
      using entries [rule_format, of j] by (cases "arr ! j") auto
    then show False using j(2) by (cases "arr ! j") auto
  qed
  have "snd res = VArray arr' \<and> length arr' = length arr
     \<and> (\<forall>j<length arr.
          case arr ! j of
            IString str \<Rightarrow>
              (\<exists>t. arr' ! j = INode t \<and> next_ref s \<le> t
                 \<and> obj (heap (snd (fst res)) t) = XmlText str
                 \<and> (\<forall>a. fst (fst res) = Inr a \<longrightarrow> t < a))
          | INode n \<Rightarrow> arr' ! j = INode n)
     \<and> (\<forall>str. IString str \<notin> set arr')"
    using val len entries nostr by (intro conjI)
  then show ?thesis unfolding res_def by (rule exI)
qed

theorem attribute_array_replaced_witness:
  "validateChar (js ''v'')
   \<and> (\<exists>arr'. snd (XmlElement_attribute one_element 0 (js ''a'')
                    (VArray [IString (js ''v''), INode 0]) None) = VArray arr'
         \<and> length arr' = 2 \<and> arr' ! 1 = INode 0 \<and> (\<forall>str. IString str \<notin> set arr'))"
proof -
  have h: "\<forall>x\<in>set [IString (js ''v''), INode 0]. \<forall>str. x = IString str \<longrightarrow> validateChar str"
    by (simp add: example_names)
  obtain arr' where a: "snd (XmlElement_attribute one_element 0 (js ''a'')
                    (VArray [IString (js ''v''), INode 0]) None) = VArray arr'"
    "length arr' = length [IString (js ''v''), INode (0::nat)]"
    "\<forall>j<length [IString (js ''v''), INode (0::nat)].
          case [IString (js ''v''), INode 0] ! j of
            IString str \<Rightarrow>
              (\<exists>t. arr' ! j = INode t \<and> next_ref one_element \<le> t
                 \<and> obj (heap (snd (fst (XmlElement_attribute one_element 0 (js ''a'')
                       (VArray [IString (js ''v''), INode 0]) None))) t) = XmlText str
                 \<and> (\<forall>a. fst (fst (XmlElement_attribute one_element 0 (js ''a'')
                       (VArray [IString (js ''v''), INode 0]) None)) = Inr a \<longrightarrow> t < a))
          | INode n \<Rightarrow> arr' ! j = INode n"
    "\<forall>str. IString str \<notin> set arr'"
    using attribute_array_replaced [OF h, of one_element 0 "js ''a''" None]
    by (elim exE conjE) (rule that)
  have "arr' ! 1 = INode 0" using a(3) [rule_format, of 1] by simp
  then show ?thesis using a(1,2,4) by (simp add: example_names)
qed

theorem attribute_array_invalid_string_counterexample:
  "\<not> validateChar [1]
   \<and> snd (XmlElement_attribute one_element 0 (js ''a'') (VArray [IString [1]]) None)
       = VArray [IString [1]]"
  by (simp add: XmlElement_attribute_def attribute_value_def attribute_loop.simps new_XmlText_def
      bmpChar_def)

section \<open>Rendering an element\<close>

lemma join_Cons: "ys \<noteq> [] \<Longrightarrow> join (x # ys) sep = x @ sep @ join ys sep"
  by (cases ys) simp_all

lemma split_from_nonempty: "split_from sep cur s \<noteq> []"
  by (induction sep cur s rule: split_from.induct) auto

lemma join_split_from: "join (split_from sep cur s) sep = cur @ s"
proof (induction sep cur s rule: split_from.induct)
  case (1 sep cur)
  show ?case by simp
next
  case (2 sep cur c cs)
  show ?case
  proof (cases "sep \<noteq> [] \<and> starts_with sep (c # cs)")
    case True
    then have "sep @ drop (length sep) (c # cs) = c # cs"
      unfolding starts_with_def by (metis append_take_drop_id)
    then show ?thesis using True "2.IH"(1) [OF True]
      by (simp add: join_Cons split_from_nonempty)
  next
    case False
    then show ?thesis using "2.IH"(2) [OF False] by auto
  qed
qed

lemma join_split: "sep \<noteq> [] \<Longrightarrow> join (split str sep) sep = str"
  by (simp add: split_def join_split_from)

lemma same_line_class_variant:
  "same_line_class ob \<longleftrightarrow> variant_of ob = CharacterReference \<or> variant_of ob = EntityReference
     \<or> variant_of ob = Text"
  by (cases ob) simp_all

lemma allSameLineNodes_iff:
  "allSameLineNodes s nodes \<longleftrightarrow> (\<forall>n\<in>set nodes. inline_compatible s n)"
  by (induction nodes) (auto simp: inline_compatible_def same_line_class_variant)

lemma onSameLine_iff:
  "onSameLine s next (Some prev) \<longleftrightarrow> inline_compatible s next \<and> inline_compatible s prev"
  by (simp add: onSameLine_def inline_compatible_def same_line_class_variant)

lemma attributes_eq: "XmlElement_attributes s e = attribute_nodes s e"
  by (simp add: XmlElement_attributes_def attribute_nodes_def instanceof_XmlAttribute_variant)

lemma nodes_eq:
  "filter (\<lambda>node. indexOf (XmlElement_attributes s e) node = - 1) (children (heap s e))
     = content_nodes s e"
  unfolding content_nodes_def
  by (rule filter_cong)
     (auto simp: indexOf_minus1 XmlElement_attributes_def instanceof_XmlAttribute_variant)

lemma attributes_loop_ok:
  "\<forall>a\<in>set as. rec a = Some (Inr (S a))
    \<Longrightarrow> attributes_loop rec as str = Some (Inr (str @ concat (map (\<lambda>a. js '' '' @ S a) as)))"
  by (induction as arbitrary: str) simp_all

declare nodes_loop.simps [simp del]

text \<open>What the loop appends for the content node at index \<open>i\<close>.\<close>

lemma nodes_loop_ok:
  assumes "\<forall>c\<in>set nodes. rec c = Some (Inr (S c))"
  shows "nodes_loop rec optionsObj s nodes i str =
     Some (Inr (str @ concat (map
       (\<lambda>i. if pretty optionsObj \<and> \<not> allSameLineNodes s nodes
                 \<and> \<not> (0 < i \<and> onSameLine s (nodes ! i) (Some (nodes ! (i - 1))))
              then newline optionsObj @ indent_lines optionsObj (S (nodes ! i))
              else S (nodes ! i))
       [i..<length nodes])))"
proof -
  define piece where "piece = (\<lambda>i. if pretty optionsObj \<and> \<not> allSameLineNodes s nodes
                 \<and> \<not> (0 < i \<and> onSameLine s (nodes ! i) (Some (nodes ! (i - 1))))
              then newline optionsObj @ indent_lines optionsObj (S (nodes ! i))
              else S (nodes ! i))"
  have ind: "map (indenter optionsObj) = map (\<lambda>line. indent optionsObj @ line)"
    by (simp add: indenter_def [abs_def])
  have step: "nodes_loop rec optionsObj s nodes i str
      = nodes_loop rec optionsObj s nodes (i + 1) (str @ piece i)"
    if lt: "i < length nodes" for i str
  proof -
    have r: "rec (nodes ! i) = Some (Inr (S (nodes ! i)))" using assms lt by simp
    have prev: "0 < i \<Longrightarrow> (if 0 < i then Some (nodes ! (i - 1)) else None) = Some (nodes ! (i - 1))"
      by simp
    show ?thesis
    proof (cases "0 < i")
      case True
      then show ?thesis
        unfolding piece_def
        by (subst nodes_loop.simps) (simp add: lt r Let_def indent_lines_def ind)
    next
      case False
      then have i0: "i = 0" by simp
      have r0: "rec (nodes ! 0) = Some (Inr (S (nodes ! 0)))" using r i0 by simp
      have ne: "nodes \<noteq> []" using lt by auto
      show ?thesis
        unfolding piece_def i0
        by (subst nodes_loop.simps) (simp add: ne r0 Let_def indent_lines_def ind)
    qed
  qed
  have "nodes_loop rec optionsObj s nodes i str
      = Some (Inr (str @ concat (map piece [i..<length nodes])))"
  proof (induction "length nodes - i" arbitrary: i str)
    case 0
    then have "\<not> i < length nodes" by simp
    then show ?case by (subst nodes_loop.simps) simp
  next
    case (Suc k)
    then have lt: "i < length nodes" and k: "k = length nodes - (i + 1)" by simp_all
    have up: "[i..<length nodes] = i # [i + 1..<length nodes]"
      using lt by (simp add: upt_conv_Cons)
    have "nodes_loop rec optionsObj s nodes i str
        = nodes_loop rec optionsObj s nodes (i + 1) (str @ piece i)"
      using lt by (rule step)
    also have "\<dots> = Some (Inr ((str @ piece i) @ concat (map piece [i + 1..<length nodes])))"
      using k by (rule Suc.hyps(1))
    also have "(str @ piece i) @ concat (map piece [i + 1..<length nodes])
        = str @ concat (map piece [i..<length nodes])"
      unfolding up by simp
    finally show ?case .
  qed
  then show ?thesis unfolding piece_def .
qed


lemma XmlElement_toString_ok:
  assumes el: "obj (heap s e) = XmlElement name"
    and kids: "\<forall>c\<in>set (children (heap s e)). rec c = Some (Inr (S c))"
  shows "XmlElement_toString rec mk s e options =
     Some (Inr (js ''<'' @ name @ concat (map (\<lambda>a. js '' '' @ S a) (attribute_nodes s e))
       @ (if content_nodes s e = [] then js ''/>''
          else js ''>''
            @ concat (map
                (\<lambda>i. if pretty (mk options)
                          \<and> \<not> (\<forall>n\<in>set (content_nodes s e). inline_compatible s n)
                          \<and> \<not> (0 < i \<and> inline_compatible s (content_nodes s e ! i)
                                \<and> inline_compatible s (content_nodes s e ! (i - 1)))
                       then newline (mk options)
                            @ indent_lines (mk options) (S (content_nodes s e ! i))
                       else S (content_nodes s e ! i))
                [0..<length (content_nodes s e)])
            @ (if pretty (mk options)
                  \<and> \<not> (\<forall>n\<in>set (content_nodes s e). inline_compatible s n)
               then newline (mk options) else [])
            @ js ''</'' @ name @ js ''>'')))"
proof -
  define str1 where "str1 = js ''<'' @ name @ concat (map (\<lambda>a. js '' '' @ S a) (attribute_nodes s e))"
  define broken where "broken \<longleftrightarrow> pretty (mk options)
      \<and> \<not> (\<forall>n\<in>set (content_nodes s e). inline_compatible s n)"
  define body where "body = concat (map
                (\<lambda>i. if broken
                          \<and> \<not> (0 < i \<and> inline_compatible s (content_nodes s e ! i)
                                \<and> inline_compatible s (content_nodes s e ! (i - 1)))
                       then newline (mk options)
                            @ indent_lines (mk options) (S (content_nodes s e ! i))
                       else S (content_nodes s e ! i))
                [0..<length (content_nodes s e)])"
  have nm: "XmlElement_name s e = name" using el by (simp add: XmlElement_name_def)
  have a: "\<forall>a\<in>set (attribute_nodes s e). rec a = Some (Inr (S a))"
    using kids by (simp add: attribute_nodes_def)
  have c: "\<forall>c\<in>set (content_nodes s e). rec c = Some (Inr (S c))"
    using kids by (simp add: content_nodes_def)
  have al: "attributes_loop rec (attribute_nodes s e) (js ''<'' @ name) = Some (Inr str1)"
    unfolding str1_def using attributes_loop_ok [OF a, of "js ''<'' @ name"] by simp
  have nl: "nodes_loop rec (mk options) s (content_nodes s e) 0 (str1 @ js ''>'')
      = Some (Inr ((str1 @ js ''>'') @ body))"
    unfolding body_def broken_def
    using nodes_loop_ok [OF c, of "mk options" s 0 "str1 @ js ''>''"]
    by (simp only: allSameLineNodes_iff onSameLine_iff conj_assoc)
  have br: "pretty (mk options) \<and> \<not> allSameLineNodes s (content_nodes s e) \<longleftrightarrow> broken"
    unfolding broken_def by (simp add: allSameLineNodes_iff)
  have nodes: "filter (\<lambda>node. indexOf (attribute_nodes s e) node = - 1) (children (heap s e))
      = content_nodes s e"
    using nodes_eq [of s e] by (simp add: attributes_eq)
  have "XmlElement_toString rec mk s e options =
      Some (Inr (if content_nodes s e = [] then str1 @ js ''/>''
                 else (if broken then ((str1 @ js ''>'') @ body) @ newline (mk options)
                       else (str1 @ js ''>'') @ body) @ js ''</'' @ name @ js ''>''))"
    unfolding XmlElement_toString_def Let_def attributes_eq nodes nm al br
    by (simp add: nl)
  also have "(if content_nodes s e = [] then str1 @ js ''/>''
                 else (if broken then ((str1 @ js ''>'') @ body) @ newline (mk options)
                       else (str1 @ js ''>'') @ body) @ js ''</'' @ name @ js ''>'')
     = js ''<'' @ name @ concat (map (\<lambda>a. js '' '' @ S a) (attribute_nodes s e))
       @ (if content_nodes s e = [] then js ''/>''
          else js ''>'' @ body @ (if broken then newline (mk options) else [])
            @ js ''</'' @ name @ js ''>'')"
    unfolding str1_def by simp
  finally show ?thesis unfolding body_def broken_def conj_assoc .
qed


subsection \<open>The pieces of \<open>split\<close> are the lines\<close>

lemma occurs_regex_test: "occurs pat s \<longleftrightarrow> regex_test pat s"
  by (simp add: occurs_def regex_test_iff)

lemma occurs_Cons: "occurs pat (c # cs) \<longleftrightarrow> starts_with pat (c # cs) \<or> occurs pat cs"
  by (simp add: occurs_regex_test)

lemma occurs_short: "length s < length pat \<Longrightarrow> \<not> occurs pat s"
  by (auto simp: occurs_def)

lemma join_concat:
  "ls \<noteq> [] \<Longrightarrow> sep @ join (map f ls) sep = concat (map (\<lambda>line. sep @ f line) ls)"
proof (induction ls)
  case Nil
  then show ?case by simp
next
  case (Cons l ls)
  then show ?case by (cases ls) simp_all
qed

lemma join_empty_sep: "join xs [] = concat xs"
  by (induction xs "[] :: jsstring" rule: join.induct) simp_all

lemma split_from_last:
  "\<not> occurs sep s \<Longrightarrow> split_from sep cur s = [cur @ s]"
proof (induction s arbitrary: cur)
  case Nil
  then show ?case by simp
next
  case (Cons c cs)
  then have "\<not> starts_with sep (c # cs)" "\<not> occurs sep cs" by (simp_all add: occurs_Cons)
  then show ?case using Cons.IH [of "cur @ [c]"] by simp
qed

lemma starts_with_long:
  assumes "sep \<noteq> []" "line \<noteq> []" "starts_with sep (line @ sep @ rest)"
  shows "occurs sep (line @ butlast sep)"
proof -
  have len: "length sep \<le> length (line @ butlast sep)" using assms(1,2)
    by (cases line) simp_all
  have "line @ sep @ rest = (line @ butlast sep) @ [last sep] @ rest"
    using assms(1) by simp
  then have "take (length sep) (line @ sep @ rest) = take (length sep) (line @ butlast sep)"
    using len by (metis take_append diff_is_0_eq take_0 append_Nil2)
  then have "starts_with sep (line @ butlast sep)"
    using assms(3) by (simp add: starts_with_def)
  then obtain q where "line @ butlast sep = [] @ sep @ q" by (auto simp: starts_with_iff)
  then show ?thesis unfolding occurs_def by blast
qed

lemma split_from_line:
  assumes "sep \<noteq> []" "\<not> occurs sep (line @ butlast sep)"
  shows "split_from sep cur (line @ sep @ rest) = (cur @ line) # split_from sep [] rest"
  using assms(2)
proof (induction line arbitrary: cur)
  case Nil
  obtain c cs where sep: "sep = c # cs" using assms(1) by (cases sep) auto
  have "starts_with sep (c # cs @ rest)" by (simp add: starts_with_iff sep)
  then have "split_from sep cur (c # cs @ rest)
      = cur # split_from sep [] (drop (length sep) (c # cs @ rest))"
    using assms(1) by simp
  then show ?case by (simp add: sep)
next
  case (Cons c cs)
  have "\<not> starts_with sep ((c # cs) @ sep @ rest)"
    using starts_with_long [OF assms(1), of "c # cs" rest] Cons.prems by blast
  moreover have "\<not> occurs sep (cs @ butlast sep)"
    using Cons.prems by (simp add: occurs_Cons)
  ultimately show ?case using Cons.IH [of "cur @ [c]"] by simp
qed

lemma split_from_join:
  assumes "sep \<noteq> []" "ls \<noteq> []"
    "\<forall>line\<in>set (butlast ls). \<not> occurs sep (line @ butlast sep)"
    "\<not> occurs sep (last ls)"
  shows "split_from sep [] (join ls sep) = ls"
  using assms(2-)
proof (induction ls)
  case Nil
  then show ?case by simp
next
  case (Cons l ls)
  show ?case
  proof (cases ls)
    case Nil
    then show ?thesis using Cons.prems split_from_last [of sep l "[]"] by simp
  next
    case (Cons l' ls')
    then have ne: "ls \<noteq> []" by simp
    have 1: "\<not> occurs sep (l @ butlast sep)" using Cons.prems(2) ne by simp
    have 2: "\<forall>line\<in>set (butlast ls). \<not> occurs sep (line @ butlast sep)"
      using Cons.prems(2) ne by simp
    have 3: "\<not> occurs sep (last ls)" using Cons.prems(3) ne by simp
    have "split_from sep [] (l @ sep @ join ls sep) = l # split_from sep [] (join ls sep)"
      using split_from_line [OF assms(1) 1, of "[]" "join ls sep"] by simp
    then show ?thesis using Cons.IH [OF ne 2 3] ne by (simp add: join_Cons)
  qed
qed

lemma is_lines_split: "is_lines nl str ls \<Longrightarrow> split str nl = ls"
proof (cases "nl = []")
  case True
  assume "is_lines nl str ls"
  then show ?thesis using True by (simp add: is_lines_def split_def)
next
  case False
  assume a: "is_lines nl str ls"
  then have ne: "ls \<noteq> []" and eq: "nl @ str = concat (map (\<lambda>line. nl @ line) ls)"
    and 1: "\<forall>line\<in>set (butlast ls). \<not> occurs nl (line @ butlast nl)"
    and 2: "\<not> occurs nl (last ls)"
    using False by (simp_all add: is_lines_def)
  have "nl @ join (map (\<lambda>line. line) ls) nl = nl @ str"
    using join_concat [OF ne, of nl "\<lambda>line. line"] eq by simp
  then have "join ls nl = str" by simp
  then show ?thesis using split_from_join [OF False ne 1 2] False by (simp add: split_def)
qed

lemma take_sep_step:
  "0 < k \<Longrightarrow> take k ((x # xs) @ take (k - 1) (c # cs)) = take k ((x # xs) @ c # take (k - 1) cs)"
  by (cases k) (auto simp: take_Cons' min_def)

lemma short_piece: "sep \<noteq> [] \<Longrightarrow> length (take (length sep - 1) s) < length sep"
  by (cases sep) (simp_all add: min_def)

lemma occurs_step:
  assumes "sep \<noteq> []" "\<not> starts_with sep (c # cs)"
    "\<not> occurs sep (cur @ take (length sep - 1) (c # cs))"
  shows "\<not> occurs sep ((cur @ [c]) @ take (length sep - 1) cs)"
  using assms(3)
proof (induction cur)
  case Nil
  have "\<not> occurs sep (take (length sep - 1) cs)" using assms(1) by (intro occurs_short short_piece)
  moreover have "take (length sep) (c # take (length sep - 1) cs) = take (length sep) (c # cs)"
    using assms(1) by (cases sep) simp_all
  then have "\<not> starts_with sep (c # take (length sep - 1) cs)"
    using assms(2) by (simp add: starts_with_def)
  ultimately show ?case by (simp add: occurs_Cons)
next
  case (Cons x xs)
  have k: "0 < length sep" using assms(1) by simp
  have 1: "\<not> starts_with sep (x # xs @ take (length sep - 1) (c # cs))"
    and 2: "\<not> occurs sep (xs @ take (length sep - 1) (c # cs))"
    using Cons.prems by (simp_all add: occurs_Cons)
  have "take (length sep) ((x # xs) @ take (length sep - 1) (c # cs))
      = take (length sep) ((x # xs) @ c # take (length sep - 1) cs)"
    by (rule take_sep_step [OF k])
  then have "\<not> starts_with sep (x # xs @ c # take (length sep - 1) cs)"
    using 1 by (simp add: starts_with_def)
  then show ?case using Cons.IH [OF 2] by (simp add: occurs_Cons)
qed

lemma split_from_lines:
  "sep \<noteq> [] \<Longrightarrow> \<not> occurs sep (cur @ take (length sep - 1) s)
    \<Longrightarrow> (\<forall>line\<in>set (butlast (split_from sep cur s)). \<not> occurs sep (line @ butlast sep))
        \<and> \<not> occurs sep (last (split_from sep cur s))"
proof (induction sep cur s rule: split_from.induct)
  case (1 sep cur)
  then show ?case by simp
next
  case (2 sep cur c cs)
  show ?case
  proof (cases "sep \<noteq> [] \<and> starts_with sep (c # cs)")
    case True
    then have "take (length sep - 1) (c # cs) = butlast sep"
      by (metis butlast_conv_take starts_with_def take_take min.absorb1 diff_le_self
          length_butlast)
    then have first: "\<not> occurs sep (cur @ butlast sep)" using "2.prems"(2) by simp
    have "\<not> occurs sep (take (length sep - 1) (drop (length sep) (c # cs)))"
      using True by (intro occurs_short short_piece) simp
    then have "\<not> occurs sep ([] @ take (length sep - 1) (drop (length sep) (c # cs)))"
      by simp
    from "2.IH"(1) [OF True "2.prems"(1) this] first True show ?thesis
      by (simp add: split_from_nonempty)
  next
    case False
    have ns: "\<not> starts_with sep (c # cs)" using False "2.prems"(1) by simp
    then have eq: "split_from sep cur (c # cs) = split_from sep (cur @ [c]) cs" by simp
    show ?thesis
      unfolding eq
      by (rule "2.IH"(2) [OF False "2.prems"(1) occurs_step [OF "2.prems"(1) ns "2.prems"(2)]])
  qed
qed

lemma split_is_lines: "is_lines nl str (split str nl)"
proof (cases "nl = []")
  case True
  then show ?thesis by (simp add: is_lines_def split_def)
next
  case False
  have ne: "split_from nl [] str \<noteq> []" by (rule split_from_nonempty)
  have "\<not> occurs nl (take (length nl - 1) str)"
    using False by (intro occurs_short short_piece)
  then have "\<not> occurs nl ([] @ take (length nl - 1) str)" by simp
  note props = split_from_lines [OF False this]
  have "nl @ join (map (\<lambda>line. line) (split_from nl [] str)) nl
      = concat (map (\<lambda>line. nl @ line) (split_from nl [] str))"
    by (rule join_concat [OF ne])
  then have "nl @ str = concat (map (\<lambda>line. nl @ line) (split_from nl [] str))"
    by (simp add: join_split_from)
  then show ?thesis using False ne props by (simp add: is_lines_def split_def)
qed

lemma is_lines_iff: "is_lines nl str ls \<longleftrightarrow> ls = split str nl"
  using is_lines_split split_is_lines by blast

lemma indented_lines:
  "newline optionsObj @ indent_lines optionsObj str
     = concat (map (\<lambda>line. newline optionsObj @ indent optionsObj @ line)
         (split str (newline optionsObj)))"
proof (cases "newline optionsObj = []")
  case True
  then show ?thesis by (simp add: indent_lines_def join_empty_sep)
next
  case False
  then have "split str (newline optionsObj) \<noteq> []"
    by (simp add: split_def split_from_nonempty)
  then show ?thesis unfolding indent_lines_def by (rule join_concat)
qed
section \<open>The claims on rendering\<close>

lemma nth_map_upt: "map (\<lambda>i. f (xs ! i)) [0..<length xs] = map f xs"
proof -
  have "map (\<lambda>i. f (xs ! i)) [0..<length xs] = map f (map ((!) xs) [0..<length xs])"
    by simp
  then show ?thesis by (simp only: map_nth)
qed

lemma mixed_nodes:
  "attribute_nodes mixed 0 = [2]" "content_nodes mixed 0 = [3, 4, 5]"
  "inline_compatible mixed 3" "inline_compatible mixed 4" "\<not> inline_compatible mixed 5"
  by (simp_all add: attribute_nodes_def content_nodes_def inline_compatible_def mixed_shape)

lemma mixed_children:
  "\<forall>c\<in>set (children (heap mixed 0)).
     toString sample_ext (\<lambda>options. options) (Suc 0) mixed c options = Some (Inr (mixed_rendering c))"
  by (simp add: mixed_shape mixed_rendering_def sample_ext_def XmlCdata_toString_def
      XmlCdata_get_data_def js_def)




lemma nested_children:
  "\<forall>c\<in>set (children (heap nested (Suc 0))).
     toString sample_ext (\<lambda>options. options) (Suc 0) nested c options
       = Some (Inr (js ''<c/>''))"
  by (simp add: nested_shape XmlElement_toString_def XmlElement_attributes_def
      XmlElement_name_def js_def)

text \<open>
  Claim C1.  For an Element with at least one content node and options with \<open>pretty\<close>
  set: if every content node is a Character-Reference, an Entity-Reference or a Text
  node, the content is written with no newline and no indent around it.  Otherwise
  every content node starts on a new line and each line of its rendering has one indent
  unit in front, the lines after the first each after a newline of their own, except
  that a node which is inline-compatible like the content node before it follows that
  node directly; and a newline is written before the closing tag exactly in this second
  case.  The lines \<open>L c\<close> of the rendering of a content node \<open>c\<close> are the one list
  that \<open>is_lines\<close> describes: its pieces between the newlines, found from the left, and
  its single code units when the newline is the empty string.
\<close>

theorem pretty_line_breaks:
  assumes "obj (heap s e) = XmlElement name"
    and "\<forall>c\<in>set (children (heap s e)). toString ext mk depth s c options = Some (Inr (S c))"
    and "content_nodes s e \<noteq> []"
    and "pretty (mk options)"
  shows "\<exists>L. (\<forall>c ls. is_lines (newline (mk options)) (S c) ls \<longleftrightarrow> ls = L c)
     \<and> toString ext mk (Suc depth) s e options =
     Some (Inr
       (js ''<'' @ name @ concat (map (\<lambda>a. js '' '' @ S a) (attribute_nodes s e)) @ js ''>''
        @ (if \<forall>n\<in>set (content_nodes s e). inline_compatible s n
           then concat (map S (content_nodes s e))
           else concat (map
                  (\<lambda>i. if 0 < i \<and> inline_compatible s (content_nodes s e ! i)
                            \<and> inline_compatible s (content_nodes s e ! (i - 1))
                         then S (content_nodes s e ! i)
                         else concat (map
                                (\<lambda>line. newline (mk options) @ indent (mk options) @ line)
                                (L (content_nodes s e ! i))))
                  [0..<length (content_nodes s e)])
                @ newline (mk options))
        @ js ''</'' @ name @ js ''>''))"
proof -
  define L where "L = (\<lambda>c. split (S c) (newline (mk options)))"
  have lines: "\<forall>c ls. is_lines (newline (mk options)) (S c) ls \<longleftrightarrow> ls = L c"
    by (simp add: is_lines_iff L_def)
  note ok = XmlElement_toString_ok [OF assms(1), of "\<lambda>n. toString ext mk depth s n options" S mk options,
      OF assms(2)]
  have ts: "toString ext mk (Suc depth) s e options
      = XmlElement_toString (\<lambda>n. toString ext mk depth s n options) mk s e options"
    using assms(1) by simp
  have "toString ext mk (Suc depth) s e options =
     Some (Inr
       (js ''<'' @ name @ concat (map (\<lambda>a. js '' '' @ S a) (attribute_nodes s e)) @ js ''>''
        @ (if \<forall>n\<in>set (content_nodes s e). inline_compatible s n
           then concat (map S (content_nodes s e))
           else concat (map
                  (\<lambda>i. if 0 < i \<and> inline_compatible s (content_nodes s e ! i)
                            \<and> inline_compatible s (content_nodes s e ! (i - 1))
                         then S (content_nodes s e ! i)
                         else concat (map
                                (\<lambda>line. newline (mk options) @ indent (mk options) @ line)
                                (L (content_nodes s e ! i))))
                  [0..<length (content_nodes s e)])
                @ newline (mk options))
        @ js ''</'' @ name @ js ''>''))"
  proof (cases "\<forall>n\<in>set (content_nodes s e). inline_compatible s n")
    case True
    have "concat (map
                (\<lambda>i. if pretty (mk options)
                          \<and> \<not> (\<forall>n\<in>set (content_nodes s e). inline_compatible s n)
                          \<and> \<not> (0 < i \<and> inline_compatible s (content_nodes s e ! i)
                                \<and> inline_compatible s (content_nodes s e ! (i - 1)))
                       then newline (mk options)
                            @ indent_lines (mk options) (S (content_nodes s e ! i))
                       else S (content_nodes s e ! i))
                [0..<length (content_nodes s e)])
        = concat (map (\<lambda>i. S (content_nodes s e ! i)) [0..<length (content_nodes s e)])"
      using True by (intro arg_cong [where f = concat] map_cong) auto
    also have "\<dots> = concat (map S (content_nodes s e))"
      by (simp only: nth_map_upt)
    finally show ?thesis unfolding ts ok using True assms(3) by auto
  next
    case False
    have "concat (map
                (\<lambda>i. if pretty (mk options)
                          \<and> \<not> (\<forall>n\<in>set (content_nodes s e). inline_compatible s n)
                          \<and> \<not> (0 < i \<and> inline_compatible s (content_nodes s e ! i)
                                \<and> inline_compatible s (content_nodes s e ! (i - 1)))
                       then newline (mk options)
                            @ indent_lines (mk options) (S (content_nodes s e ! i))
                       else S (content_nodes s e ! i))
                [0..<length (content_nodes s e)])
        = concat (map
                  (\<lambda>i. if 0 < i \<and> inline_compatible s (content_nodes s e ! i)
                            \<and> inline_compatible s (content_nodes s e ! (i - 1))
                         then S (content_nodes s e ! i)
                         else concat (map
                                (\<lambda>line. newline (mk options) @ indent (mk options) @ line)
                                (L (content_nodes s e ! i))))
                  [0..<length (content_nodes s e)])"
      using False assms(4)
      by (intro arg_cong [where f = concat] map_cong) (auto simp: indented_lines L_def)
    then show ?thesis unfolding ts ok using False assms(3,4) by auto
  qed
  with lines show ?thesis by blast
qed

theorem pretty_line_breaks_witness:
  "is_lines [10] (js ''<b>'' @ [10] @ js ''  <c/>'' @ [10] @ js ''</b>'')
     [js ''<b>'', js ''  <c/>'', js ''</b>'']
   \<and> toString sample_ext (\<lambda>options. options) (Suc (Suc 0)) nested (Suc 0) pretty_options
       = Some (Inr (js ''<b>'' @ [10] @ js ''  <c/>'' @ [10] @ js ''</b>''))
   \<and> toString sample_ext (\<lambda>options. options) (Suc (Suc (Suc 0))) nested 0 pretty_options
       = Some (Inr (js ''<a>'' @ [10] @ js ''  <b>'' @ [10] @ js ''    <c/>'' @ [10]
           @ js ''  </b>'' @ [10] @ js ''</a>''))
   \<and> toString sample_ext (\<lambda>options. options) (Suc (Suc 0)) mixed 0 pretty_options
       = Some (Inr (js ''<e a='' @ [34] @ js ''v'' @ [34] @ js ''>'' @ [10] @ js ''  xy'' @ [10]
           @ js ''  <![CDATA[z]]>'' @ [10] @ js ''</e>''))"
proof -
  have pr: "pretty ((\<lambda>options. options) pretty_options)" by (simp add: pretty_options_def)
  have nl: "newline pretty_options = [10]" "indent pretty_options = js ''  ''"
    by (simp_all add: pretty_options_def)
  have l1: "is_lines [10] (js ''<c/>'') [js ''<c/>'']"
    by (simp add: is_lines_def occurs_regex_test js_def starts_with_def)
  have l3: "is_lines [10] (js ''<b>'' @ [10] @ js ''  <c/>'' @ [10] @ js ''</b>'')
     [js ''<b>'', js ''  <c/>'', js ''</b>'']"
    by (simp add: is_lines_def occurs_regex_test js_def starts_with_def)
  have lx: "is_lines [10] (js ''x'') [js ''x'']"
    by (simp add: is_lines_def occurs_regex_test js_def starts_with_def)
  have lz: "is_lines [10] (js ''<![CDATA[z]]>'') [js ''<![CDATA[z]]>'']"
    by (simp add: is_lines_def occurs_regex_test js_def starts_with_def)
  have b: "toString sample_ext (\<lambda>options. options) (Suc (Suc 0)) nested (Suc 0) pretty_options
       = Some (Inr (js ''<b>'' @ [10] @ js ''  <c/>'' @ [10] @ js ''</b>''))"
  proof -
    have el: "obj (heap nested (Suc 0)) = XmlElement (js ''b'')" by (simp add: nested_shape)
    have nodes: "attribute_nodes nested (Suc 0) = []" "content_nodes nested (Suc 0) = [2]"
      "\<not> inline_compatible nested 2"
      by (simp_all add: attribute_nodes_def content_nodes_def inline_compatible_def nested_shape)
    have ne: "content_nodes nested (Suc 0) \<noteq> []" by (simp add: nodes)
    from pretty_line_breaks [OF el nested_children ne pr]
    obtain L :: "ref \<Rightarrow> jsstring list" where
      L: "\<And>c ls. is_lines (newline pretty_options) (js ''<c/>'') ls \<longleftrightarrow> ls = L c"
      and r: "toString sample_ext (\<lambda>options. options) (Suc (Suc 0)) nested (Suc 0) pretty_options
        = Some (Inr (js ''<'' @ js ''b'' @ js ''>''
            @ concat (map (\<lambda>line. newline pretty_options @ indent pretty_options @ line) (L 2))
            @ newline pretty_options @ js ''</'' @ js ''b'' @ js ''>''))"
      by (auto simp: nodes simp del: toString.simps)
    have "L 2 = [js ''<c/>'']" using L [of "[js ''<c/>'']" 2] l1 by (simp add: nl)
    then show ?thesis unfolding r by (simp add: nl js_def)
  qed
  have a: "toString sample_ext (\<lambda>options. options) (Suc (Suc (Suc 0))) nested 0 pretty_options
       = Some (Inr (js ''<a>'' @ [10] @ js ''  <b>'' @ [10] @ js ''    <c/>'' @ [10]
           @ js ''  </b>'' @ [10] @ js ''</a>''))"
  proof -
    have el: "obj (heap nested 0) = XmlElement (js ''a'')" by (simp add: nested_shape)
    have nodes: "attribute_nodes nested 0 = []" "content_nodes nested 0 = [Suc 0]"
      "\<not> inline_compatible nested (Suc 0)"
      by (simp_all add: attribute_nodes_def content_nodes_def inline_compatible_def nested_shape)
    have ne: "content_nodes nested 0 \<noteq> []" by (simp add: nodes)
    have kids: "\<forall>c\<in>set (children (heap nested 0)).
        toString sample_ext (\<lambda>options. options) (Suc (Suc 0)) nested c pretty_options
          = Some (Inr (js ''<b>'' @ [10] @ js ''  <c/>'' @ [10] @ js ''</b>''))"
      using b by (simp add: nested_shape)
    from pretty_line_breaks [OF el kids ne pr]
    obtain L :: "ref \<Rightarrow> jsstring list" where
      L: "\<And>c ls. is_lines (newline pretty_options)
            (js ''<b>'' @ [10] @ js ''  <c/>'' @ [10] @ js ''</b>'') ls \<longleftrightarrow> ls = L c"
      and r: "toString sample_ext (\<lambda>options. options) (Suc (Suc (Suc 0))) nested 0 pretty_options
        = Some (Inr (js ''<'' @ js ''a'' @ js ''>''
            @ concat (map (\<lambda>line. newline pretty_options @ indent pretty_options @ line)
                (L (Suc 0)))
            @ newline pretty_options @ js ''</'' @ js ''a'' @ js ''>''))"
      by (auto simp: nodes simp del: toString.simps)
    have "L (Suc 0) = [js ''<b>'', js ''  <c/>'', js ''</b>'']"
      using L [of "[js ''<b>'', js ''  <c/>'', js ''</b>'']" "Suc 0"] l3 by (simp add: nl)
    then show ?thesis unfolding r by (simp add: nl js_def)
  qed
  have m: "toString sample_ext (\<lambda>options. options) (Suc (Suc 0)) mixed 0 pretty_options
       = Some (Inr (js ''<e a='' @ [34] @ js ''v'' @ [34] @ js ''>'' @ [10] @ js ''  xy'' @ [10]
           @ js ''  <![CDATA[z]]>'' @ [10] @ js ''</e>''))"
  proof -
    have el: "obj (heap mixed 0) = XmlElement (js ''e'')" by (simp add: mixed_shape)
    have ne: "content_nodes mixed 0 \<noteq> []" by (simp add: mixed_nodes)
    have up: "[0..<3] = [0, Suc 0, 2]" by (simp add: upt_rec)
    from pretty_line_breaks [OF el mixed_children ne pr]
    obtain L :: "ref \<Rightarrow> jsstring list" where
      L: "\<And>c ls. is_lines (newline pretty_options) (mixed_rendering c) ls \<longleftrightarrow> ls = L c"
      and r: "toString sample_ext (\<lambda>options. options) (Suc (Suc 0)) mixed 0 pretty_options
        = Some (Inr (js ''<'' @ js ''e'' @ js '' '' @ mixed_rendering 2 @ js ''>''
            @ concat (map (\<lambda>line. newline pretty_options @ indent pretty_options @ line) (L 3))
            @ mixed_rendering 4
            @ concat (map (\<lambda>line. newline pretty_options @ indent pretty_options @ line) (L 5))
            @ newline pretty_options @ js ''</'' @ js ''e'' @ js ''>''))"
      by (auto simp: mixed_nodes up simp del: toString.simps)
    have "L 3 = [js ''x'']" using L [of 3 "[js ''x'']"] lx
      by (simp add: nl mixed_rendering_def)
    moreover have "L 5 = [js ''<![CDATA[z]]>'']" using L [of 5 "[js ''<![CDATA[z]]>'']"] lz
      by (simp add: nl mixed_rendering_def)
    ultimately show ?thesis unfolding r by (simp add: nl mixed_rendering_def js_def)
  qed
  show ?thesis using l3 b a m by simp
qed

text \<open>
  With the empty string as the newline the rendering \<open><![CDATA[z]]>\<close> of the only
  child of \<open>e\<close> holds no newline, and still the indent \<open>-\<close> is written in front of
  every code unit of it, not once in front of it.
\<close>

theorem empty_newline_counterexample:
  "toString sample_ext (\<lambda>options. options) (Suc 0) cdata_child (Suc 0) dash_options
     = Some (Inr (js ''<![CDATA[z]]>''))
   \<and> toString sample_ext (\<lambda>options. options) (Suc (Suc 0)) cdata_child 0 dash_options
     = Some (Inr (js ''<e>-<-!-[-C-D-A-T-A-[-z-]-]-></e>''))
   \<and> toString sample_ext (\<lambda>options. options) (Suc (Suc 0)) cdata_child 0 dash_options
     \<noteq> Some (Inr (js ''<e>'' @ newline dash_options @ indent dash_options
           @ js ''<![CDATA[z]]>'' @ newline dash_options @ js ''</e>''))"
proof -
  have el: "obj (heap cdata_child 0) = XmlElement (js ''e'')" by (simp add: cdata_child_shape)
  have kid: "toString sample_ext (\<lambda>options. options) (Suc 0) cdata_child (Suc 0) dash_options
     = Some (Inr (js ''<![CDATA[z]]>''))"
    by (simp add: cdata_child_shape XmlCdata_toString_def XmlCdata_get_data_def js_def)
  have kids: "\<forall>c\<in>set (children (heap cdata_child 0)).
      toString sample_ext (\<lambda>options. options) (Suc 0) cdata_child c dash_options
        = Some (Inr (js ''<![CDATA[z]]>''))"
    using kid by (simp add: cdata_child_shape)
  have nodes: "attribute_nodes cdata_child 0 = []" "content_nodes cdata_child 0 = [Suc 0]"
    "\<not> inline_compatible cdata_child (Suc 0)"
    by (simp_all add: attribute_nodes_def content_nodes_def inline_compatible_def
        cdata_child_shape)
  have ts: "toString sample_ext (\<lambda>options. options) (Suc (Suc 0)) cdata_child 0 dash_options
      = XmlElement_toString
          (\<lambda>n. toString sample_ext (\<lambda>options. options) (Suc 0) cdata_child n dash_options)
          (\<lambda>options. options) cdata_child 0 dash_options"
    using el by simp
  have r: "toString sample_ext (\<lambda>options. options) (Suc (Suc 0)) cdata_child 0 dash_options
     = Some (Inr (js ''<e>-<-!-[-C-D-A-T-A-[-z-]-]-></e>''))"
    unfolding ts XmlElement_toString_ok [OF el kids]
    by (simp add: nodes dash_options_def indent_lines_def split_def js_def)
  show ?thesis using kid r by (simp add: dash_options_def js_def)
qed
section \<open>Rendering never fails?\<close>

lemma self_child_no_rendering:
  "toString ext mk depth self_child 0 options = None"
proof (induction depth)
  case 0
  show ?case by simp
next
  case (Suc depth)
  have nodes: "filter (\<lambda>node. indexOf (XmlElement_attributes self_child 0) node = - 1)
      (children (heap self_child 0)) = [0]"
    by (simp add: XmlElement_attributes_def self_child_shape)
  show ?case
    using Suc
    by (simp add: self_child_shape XmlElement_toString_def Let_def nodes
        XmlElement_attributes_def nodes_loop.simps [of _ _ _ _ 0])
qed

text \<open>
  Claim C9, amended.  In a tree whose child relation is acyclic (a rank falls from
  every node to its children, so no node was inserted into itself or below itself) and
  which holds no object of the bare base class, \<open>toString\<close> with any options on any node
  returns a string, within a depth of calls of one more than the rank of the node;
  given that the \<open>toString\<close> of the classes whose source is missing returns.
\<close>

theorem toString_returns:
  assumes "r \<in> T"
    and "\<forall>n\<in>T. set (children (heap s n)) \<subseteq> T"
    and "\<forall>n\<in>T. \<forall>c\<in>set (children (heap s n)). rank c < rank n"
    and "\<forall>n\<in>T. variant_of (obj (heap s n)) \<noteq> Node"
    and "\<forall>n\<in>T. variant_of (obj (heap s n)) \<notin> {CDATA, Element} \<longrightarrow> (\<exists>str. ext s n options = Inr str)"
  shows "\<exists>str. toString ext mk (Suc (rank r)) s r options = Some (Inr str)"
proof -
  have "\<forall>n\<in>T. rank n < depth \<longrightarrow> (\<exists>str. toString ext mk depth s n options = Some (Inr str))"
    for depth
  proof (induction depth)
    case 0
    show ?case by simp
  next
    case (Suc depth)
    show ?case
    proof (intro ballI impI)
      fix n assume n: "n \<in> T" and rk: "rank n < Suc depth"
      show "\<exists>str. toString ext mk (Suc depth) s n options = Some (Inr str)"
      proof (cases "obj (heap s n)")
        case XmlNode
        then show ?thesis using assms(4) n by auto
      next
        case (XmlCdata d)
        then show ?thesis by simp
      next
        case (XmlElement name)
        have "\<forall>c\<in>set (children (heap s n)). \<exists>str. toString ext mk depth s c options = Some (Inr str)"
        proof
          fix c assume c: "c \<in> set (children (heap s n))"
          then have "c \<in> T" "rank c < rank n" using assms(2,3) n by auto
          then show "\<exists>str. toString ext mk depth s c options = Some (Inr str)"
            using Suc.IH rk by auto
        qed
        then obtain S where S: "\<forall>c\<in>set (children (heap s n)).
            toString ext mk depth s c options = Some (Inr (S c))"
          by metis
        have "toString ext mk (Suc depth) s n options
            = XmlElement_toString (\<lambda>c. toString ext mk depth s c options) mk s n options"
          using XmlElement by simp
        then show ?thesis
          unfolding XmlElement_toString_ok [OF XmlElement S] by simp
      next
        case (XmlAttribute a)
        then show ?thesis using assms(5) n by auto
      next
        case (XmlCharRef c h)
        then show ?thesis using assms(5) n by auto
      next
        case (XmlComment c)
        then show ?thesis using assms(5) n by auto
      next
        case (XmlDtdEntity t)
        then show ?thesis using assms(5) n by auto
      next
        case (XmlEntityRef t)
        then show ?thesis using assms(5) n by auto
      next
        case (XmlProcInst t c)
        then show ?thesis using assms(5) n by auto
      next
        case (XmlText t)
        then show ?thesis using assms(5) n by auto
      qed
    qed
  qed
  then show ?thesis using assms(1) by blast
qed

theorem toString_returns_witness:
  "\<exists>str. toString sample_ext (\<lambda>options. options) (Suc (Suc (Suc 0))) mixed 0 pretty_options
      = Some (Inr str)"
proof -
  have 1: "0 \<in> {0, 1, 2, 3, 4, 5 :: nat}" by simp
  have 2: "\<forall>n\<in>{0, 1, 2, 3, 4, 5}. set (children (heap mixed n)) \<subseteq> {0, 1, 2, 3, 4, 5}"
    by (simp add: mixed_shape)
  have 3: "\<forall>n\<in>{0, 1, 2, 3, 4, 5}. \<forall>c\<in>set (children (heap mixed n)). mixed_rank c < mixed_rank n"
    by (simp add: mixed_shape mixed_rank_def)
  have 4: "\<forall>n\<in>{0, 1, 2, 3, 4, 5}. variant_of (obj (heap mixed n)) \<noteq> Node"
    by (simp add: mixed_shape)
  have 5: "\<forall>n\<in>{0, 1, 2, 3, 4, 5}. variant_of (obj (heap mixed n)) \<notin> {CDATA, Element}
      \<longrightarrow> (\<exists>str. sample_ext mixed n pretty_options = Inr str)"
    by (simp add: mixed_shape sample_ext_def)
  have r: "Suc (mixed_rank 0) = Suc (Suc (Suc 0))" by (simp add: mixed_rank_def)
  show ?thesis
    using toString_returns [where T = "{0, 1, 2, 3, 4, 5}" and rank = mixed_rank and s = mixed
        and ext = sample_ext and options = pretty_options and mk = "\<lambda>options. options"
        and r = 0, OF 1 2 3 4 5]
    unfolding r .
qed

theorem self_insert_counterexample:
  "new_XmlElement empty_store (js ''e'') = (Inr 0, one_element)
   \<and> insertChild one_element 0 0 None = (Inr (Some 0), self_child)
   \<and> (\<forall>depth. toString sample_ext (\<lambda>options. options) depth self_child 0 plain_options = None)"
proof -
  have 1: "new_XmlElement empty_store (js ''e'') = (Inr 0, one_element)"
    unfolding one_element_def
    by (simp add: new_XmlElement_def XmlElement_set_name_def example_names alloc_def
        empty_store_def)
  have 2: "insertChild one_element 0 0 None = (Inr (Some 0), self_child)"
    unfolding self_child_def by (simp add: store_eval one_element_shape)
  show ?thesis using 1 2 by (simp add: self_child_no_rendering)
qed

section \<open>Names\<close>







end
